theory Spec2Isabelle
  imports Main
begin

section \<open>The service registry of the Manager\<close>

text \<open>
  A Go \<open>error\<close> value: \<open>None\<close> is \<open>nil\<close>, \<open>Some msg\<close> is a non-nil error with
  its message.
\<close>

type_synonym goerror = "string option"

text \<open>
  Modelled from the spec: the errors of \<open>register\<close>; package \<open>servicemanager\<close> is not
  among the sources.
\<close>

datatype mgr_error = DuplicateName string | AlreadyRunning

text \<open>
  Modelled from the spec: the Manager of the absent package \<open>servicemanager\<close>, as far
  as registration goes: the ordered registry of service names, and whether a Run Session
  has started. \<open>NewServiceManager\<close> is the Manager \<open>RunMicroshift\<close> starts from.
\<close>

record manager =
  registry :: "string list"
  sessionStarted :: bool

definition NewServiceManager :: manager where
  "NewServiceManager = \<lparr>registry = [], sessionStarted = False\<rparr>"

text \<open>
  Modelled from the spec: \<open>AddService\<close> of package \<open>servicemanager\<close> is not among the
  sources. The spec's \<open>register(service)\<close> fails with \<open>DuplicateName\<close> if a service with
  the same name is already registered (for any duplicate, always), fails with
  \<open>AlreadyRunning\<close> after a Run Session has started, and otherwise appends the service
  to the ordered registry. A service is identified by its name. The result is the error
  (\<open>None\<close> for \<open>nil\<close>) and the Manager after the call.
\<close>

definition register :: "string \<Rightarrow> manager \<Rightarrow> mgr_error option \<times> manager" where
  "register n m =
     (if n \<in> set (registry m) then (Some (DuplicateName n), m)
      else if sessionStarted m then (Some AlreadyRunning, m)
      else (None, m\<lparr>registry := registry m @ [n]\<rparr>))"

text \<open>
  The sixteen \<open>util.Must(m.AddService(...))\<close> lines of \<open>RunMicroshift\<close> (82 to 98):
  the services are registered one after the other, and \<open>util.Must\<close> panics at the first
  error.
\<close>

fun registerAll :: "string list \<Rightarrow> manager \<Rightarrow> mgr_error + manager" where
  "registerAll [] m = Inr m"
| "registerAll (n # ns) m =
     (case register n m of (Some e, _) \<Rightarrow> Inl e | (None, m') \<Rightarrow> registerAll ns m')"

section \<open>The Run Session of the Manager\<close>

text \<open>
  Modelled from the spec: \<open>Run\<close> of package \<open>servicemanager\<close> is not among the sources.
  A Run Session holds the registry (read-only, in registration order), the order in
  which the services were started, the services that have signalled readiness, the
  outcome of every service whose \<open>run\<close> has returned, the number of writes to
  \<open>readyOut\<close>, whether the shared scope is cancelled, the order in which the Manager
  stopped services after a startup failure, what was written to \<open>stoppedOut\<close>, and the
  value the Manager-level \<open>run\<close> has returned (\<open>None\<close> while it has not).
\<close>

record session =
  svcs :: "string list"
  startOrder :: "string list"
  signalled :: "string list"
  outcomes :: "(string \<times> goerror) list"
  readyOut :: nat
  scopeCancelled :: bool
  stopOrder :: "string list"
  stoppedOut :: "goerror option"
  result :: "goerror option"

text \<open>
  Modelled from the spec: part of the absent \<open>Run\<close>. A service is running from the
  start of the session until its \<open>run\<close> returns.
\<close>

definition running :: "session \<Rightarrow> string \<Rightarrow> bool" where
  "running s n = (n \<in> set (svcs s) \<and> n \<notin> fst ` set (outcomes s))"

text \<open>
  Modelled from the spec: part of the absent \<open>Run\<close>. Every registered service has
  signalled its readiness; the \<open>run\<close> of every registered service has returned.
\<close>

definition allSignalled :: "session \<Rightarrow> bool" where
  "allSignalled s = list_all (\<lambda>n. n \<in> set (signalled s)) (svcs s)"

definition allReturned :: "session \<Rightarrow> bool" where
  "allReturned s = list_all (\<lambda>n. n \<in> fst ` set (outcomes s)) (svcs s)"

text \<open>
  Modelled from the spec: part of the absent \<open>Run\<close>. Aggregate readiness is written
  once, by the running Manager, only after every registered service has signalled its
  own readiness.
\<close>

definition emit_ready :: "session \<Rightarrow> session" where
  "emit_ready s =
     (if result s = None \<and> readyOut s = 0 \<and> allSignalled s
      then s\<lparr>readyOut := Suc (readyOut s)\<rparr> else s)"

text \<open>
  Modelled from the spec: part of the absent \<open>Run\<close>. The combined error names every
  failing service; it is \<open>nil\<close> if none failed.
\<close>

fun failures :: "(string \<times> goerror) list \<Rightarrow> string list" where
  "failures [] = []"
| "failures ((n, None) # os) = failures os"
| "failures ((n, Some e) # os) = (n @ '': '' @ e) # failures os"

definition aggregate :: "(string \<times> goerror) list \<Rightarrow> goerror" where
  "aggregate os = (if failures os = [] then None else Some (concat (failures os)))"

text \<open>
  Modelled from the spec: part of the absent \<open>Run\<close>. Once the scope is cancelled the
  Manager waits for every service's \<open>run\<close> to return, then writes the aggregate
  outcome to \<open>stoppedOut\<close> and returns.
\<close>

definition finish_session :: "session \<Rightarrow> session" where
  "finish_session s =
     (if result s = None \<and> scopeCancelled s \<and> allReturned s
      then s\<lparr>stoppedOut := Some (aggregate (outcomes s)), result := Some (aggregate (outcomes s))\<rparr>
      else s)"

text \<open>
  Modelled from the spec: part of the absent \<open>Run\<close>. A fatal startup failure of
  service \<open>n\<close> with error \<open>e\<close>: the Manager cancels the shared scope, stops the other
  services that are still running in reverse registration order, and returns that error
  without writing to \<open>readyOut\<close>.
\<close>

definition startup_failure :: "string \<Rightarrow> string \<Rightarrow> session \<Rightarrow> session" where
  "startup_failure n e s =
     s\<lparr>scopeCancelled := True,
       stopOrder := rev (filter (\<lambda>x. x \<noteq> n \<and> running s x) (svcs s)),
       result := Some (Some e)\<rparr>"

text \<open>
  Modelled from the spec: part of the absent \<open>Run\<close>. The start of the session: the
  services are started in registration order (with no service registered, aggregate
  readiness holds at once).
\<close>

definition run_start :: "manager \<Rightarrow> session" where
  "run_start m =
     emit_ready \<lparr>svcs = registry m, startOrder = registry m, signalled = [], outcomes = [],
                 readyOut = 0, scopeCancelled = False, stopOrder = [],
                 stoppedOut = None, result = None\<rparr>"

text \<open>
  Modelled from the spec: part of the absent \<open>Run\<close>. What the Manager observes: a
  running service signals readiness (a repeated signal is a no-op), the \<open>run\<close> of a
  running service returns (an error before that service has signalled readiness is a
  startup failure), the scope is cancelled from outside. A service that is not running
  can do neither (\<open>None\<close>). After the Manager-level \<open>run\<close> has returned, outcomes are
  still recorded but nothing else is done.
\<close>

datatype svc_event = SvcReady string | SvcReturns string goerror | ScopeCancel

fun mgr_step :: "svc_event \<Rightarrow> session \<Rightarrow> session option" where
  "mgr_step (SvcReady n) s =
     (if running s n
      then Some (emit_ready (if n \<in> set (signalled s) then s
                             else s\<lparr>signalled := signalled s @ [n]\<rparr>))
      else None)"
| "mgr_step (SvcReturns n err) s =
     (if running s n
      then (if result s \<noteq> None then Some (s\<lparr>outcomes := outcomes s @ [(n, err)]\<rparr>)
            else case err of
              Some e \<Rightarrow>
                if n \<notin> set (signalled s)
                then Some (startup_failure n e (s\<lparr>outcomes := outcomes s @ [(n, err)]\<rparr>))
                else Some (finish_session (s\<lparr>outcomes := outcomes s @ [(n, err)]\<rparr>))
            | None \<Rightarrow> Some (finish_session (s\<lparr>outcomes := outcomes s @ [(n, err)]\<rparr>)))
      else None)"
| "mgr_step ScopeCancel s = Some (finish_session (s\<lparr>scopeCancelled := True\<rparr>))"

text \<open>
  Modelled from the spec: a Run Session is a sequence of such events; \<open>None\<close> if one
  of them cannot happen.
\<close>

fun mgr_exec :: "svc_event list \<Rightarrow> session \<Rightarrow> session option" where
  "mgr_exec [] s = Some s"
| "mgr_exec (e # es) s = (case mgr_step e s of None \<Rightarrow> None | Some s' \<Rightarrow> mgr_exec es s')"

section \<open>The orchestration entry point \<open>RunMicroshift\<close>\<close>

text \<open>
  The constant of lines 26 to 28; line 175 waits
  \<open>time.Duration(gracefulShutdownTimeout) * time.Second\<close>, so it counts seconds.
\<close>

definition gracefulShutdownTimeout :: nat where
  "gracefulShutdownTimeout = 60"

text \<open>
  Modelled from the spec: \<open>certchains.WhenToRotateAtEarliest\<close> is not among the
  sources. The spec's \<open>earliestRotation(chains)\<close> returns the minimum rotate-by instant
  of the chains and fails only for an empty set of chains. Instants are whole seconds.
\<close>

fun earliestRotation :: "nat list \<Rightarrow> nat option" where
  "earliestRotation [] = None"
| "earliestRotation (c # cs) =
     (case earliestRotation cs of None \<Rightarrow> Some c | Some d \<Rightarrow> Some (min c d))"

text \<open>The ways the process ends before any service runs (\<open>klog.Fatalf\<close>, a panic).\<close>

datatype fatal =
    ConfigInvalid string
  | NotPrivileged
  | NoProxyEnvFailed string
  | CertsFailed string
  | KubeconfigsFailed string
  | MustPanic mgr_error
  | RotationUnknown

text \<open>
  What \<open>RunMicroshift\<close> reads from its surroundings before the first \<open>select\<close>: the
  results of the helpers it calls, the effective user id, the names of the services it
  constructs (in the order of the source), the value of \<open>NOTIFY_SOCKET\<close>, the rotate-by
  instants of the certificate chains, the clock, the outcome \<open>daemon.SdNotify\<close> will
  have (an error with its message, sent, or not supported).
\<close>

datatype sdnotify = SdError string | SdSent | SdUnsupported

record startup =
  configErr :: goerror
  euid :: int
  noProxyErr :: goerror
  certsErr :: goerror
  kubeconfigsErr :: goerror
  services :: "string list"
  notifyEnv :: "string option"
  chains :: "nat list"
  clock :: nat
  sdOutcome :: sdnotify

text \<open>Where the main goroutine stands; \<open>ShuttingDown t\<close> entered the second \<open>select\<close> at \<open>t\<close>.\<close>

datatype mainpc = WaitingForReady | Ready | ShuttingDown nat | Stopped

datatype watcherpc = Watching | WatcherExited

datatype mgrpc = MgrLaunched | MgrRunning | MgrReturned

datatype logline =
    LogStarting
  | LogStartedMgr
  | LogMgrStopped string
  | LogMgrCompleted
  | LogReady
  | LogNotifyError string
  | LogNotifySent
  | LogNotifyUnsupported
  | LogInterrupt
  | LogStoppingServices
  | LogCertRotation
  | LogWatcherExiting
  | LogTimedOut
  | LogStopped

text \<open>The text of each log line; \<open>m.Name()\<close> is a parameter.\<close>

fun render :: "string \<Rightarrow> logline \<Rightarrow> string" where
  "render nm LogStarting = ''Starting MicroShift''"
| "render nm LogStartedMgr = ''Started '' @ nm"
| "render nm (LogMgrStopped e) = ''Stopped '' @ nm @ '': '' @ e"
| "render nm LogMgrCompleted = nm @ '' completed''"
| "render nm LogReady = ''MicroShift is ready''"
| "render nm (LogNotifyError e) = ''error sending sd_notify readiness message: '' @ e"
| "render nm LogNotifySent = ''sent sd_notify readiness message''"
| "render nm LogNotifyUnsupported = ''service does not support sd_notify readiness messages''"
| "render nm LogInterrupt = ''Interrupt received''"
| "render nm LogStoppingServices = ''Stopping services''"
| "render nm LogCertRotation = ''Stopping services for certificate rotation''"
| "render nm LogWatcherExiting = ''Certificate watcher exiting''"
| "render nm LogTimedOut = ''Timed out waiting for services to stop''"
| "render nm LogStopped = ''MicroShift stopped''"

text \<open>
  The state of one run of \<open>RunMicroshift\<close> from the first \<open>select\<close> on: the three
  goroutines (main, certificate watcher, the one calling \<open>m.Run\<close>), the clock, the two
  contexts, the three channels, the environment variable and the log.
\<close>

record state =
  pc :: mainpc
  watcher :: watcherpc
  mgr :: mgrpc
  now :: nat
  rotationDate :: nat
  certCancelled :: bool
  runCancelled :: bool
  sigTerm :: bool
  readyCh :: bool
  stoppedCh :: bool
  envNotifySocket :: "string option"
  notifySocket :: string
  sdResult :: sdnotify
  sdNotifyCalls :: nat
  returned :: "goerror option"
  logs :: "logline list"

text \<open>
  The contexts of \<open>RunMicroshift\<close>. Both \<open>certCtx\<close> (\<open>context.WithDeadline\<close>) and
  \<open>runCtx\<close> (\<open>context.WithCancel\<close>) are derived from \<open>context.Background()\<close>.
\<close>

datatype ctx = Background | CertCtx | RunCtx

fun parent :: "ctx \<Rightarrow> ctx option" where
  "parent Background = None"
| "parent CertCtx = Some Background"
| "parent RunCtx = Some Background"

text \<open>
  \<open>Done()\<close> of a context: the background context is never done, \<open>certCtx\<close> is done
  once its deadline has passed or \<open>certCancel\<close> was called, \<open>runCtx\<close> once \<open>runCancel\<close>
  was called.
\<close>

fun ctxDone :: "ctx \<Rightarrow> state \<Rightarrow> bool" where
  "ctxDone Background s = False"
| "ctxDone CertCtx s = (certCancelled s \<or> rotationDate s \<le> now s)"
| "ctxDone RunCtx s = runCancelled s"

text \<open>
  The state in which the main goroutine reaches the first \<open>select\<close>: the watcher and
  the goroutine calling \<open>m.Run\<close> are launched, \<open>NOTIFY_SOCKET\<close> is stored and unset,
  nothing is cancelled, no channel is ready.
\<close>

definition initial :: "nat \<Rightarrow> nat \<Rightarrow> string \<Rightarrow> sdnotify \<Rightarrow> state" where
  "initial t d sock sd =
     \<lparr>pc = WaitingForReady, watcher = Watching, mgr = MgrLaunched,
      now = t, rotationDate = d,
      certCancelled = False, runCancelled = False,
      sigTerm = False, readyCh = False, stoppedCh = False,
      envNotifySocket = None, notifySocket = sock,
      sdResult = sd, sdNotifyCalls = 0,
      returned = None, logs = [LogStarting]\<rparr>"

text \<open>
  Lines 45 to 146. \<open>os.Getenv\<close> gives the empty string for an unset variable.
\<close>

definition RunMicroshift_start :: "startup \<Rightarrow> fatal + state" where
  "RunMicroshift_start st =
     (case configErr st of Some e \<Rightarrow> Inl (ConfigInvalid e) | None \<Rightarrow>
      if euid st > 0 then Inl NotPrivileged else
      case noProxyErr st of Some e \<Rightarrow> Inl (NoProxyEnvFailed e) | None \<Rightarrow>
      case certsErr st of Some e \<Rightarrow> Inl (CertsFailed e) | None \<Rightarrow>
      case kubeconfigsErr st of Some e \<Rightarrow> Inl (KubeconfigsFailed e) | None \<Rightarrow>
      case registerAll (services st) NewServiceManager of Inl e \<Rightarrow> Inl (MustPanic e) | Inr m \<Rightarrow>
      case earliestRotation (chains st) of None \<Rightarrow> Inl RotationUnknown | Some d \<Rightarrow>
      Inr (initial (clock st) d (case notifyEnv st of None \<Rightarrow> [] | Some v \<Rightarrow> v) (sdOutcome st)))"

text \<open>The branch \<open>case <-ready\<close> up to the point where it blocks on \<open><-sigTerm\<close>.\<close>

definition ready_branch :: "state \<Rightarrow> state" where
  "ready_branch s =
     s\<lparr>pc := Ready,
       envNotifySocket := Some (notifySocket s),
       sdNotifyCalls := Suc (sdNotifyCalls s),
       logs := logs s @ [LogReady,
         (case sdResult s of SdError e \<Rightarrow> LogNotifyError e | SdSent \<Rightarrow> LogNotifySent
          | SdUnsupported \<Rightarrow> LogNotifyUnsupported)]\<rparr>"

text \<open>Receiving from \<open>sigTerm\<close> and logging it.\<close>

definition interrupt :: "state \<Rightarrow> state" where
  "interrupt s = s\<lparr>sigTerm := False, logs := logs s @ [LogInterrupt]\<rparr>"

text \<open>Lines 170 to 173: log, \<open>runCancel()\<close>, enter the second \<open>select\<close>, starting its timer.\<close>

definition stopping :: "state \<Rightarrow> state" where
  "stopping s =
     s\<lparr>pc := ShuttingDown (now s), runCancelled := True,
       logs := logs s @ [LogStoppingServices]\<rparr>"

text \<open>Lines 178 and 179: log and \<open>return nil\<close>.\<close>

definition finish :: "state \<Rightarrow> state" where
  "finish s = s\<lparr>pc := Stopped, returned := Some None, logs := logs s @ [LogStopped]\<rparr>"

text \<open>
  The cases the main goroutine can take at a \<open>select\<close> or a receive, and those of the
  watcher.
\<close>

datatype mcase = OnReady | OnSigTerm | OnRunDone | OnStopped | OnTimeout

datatype wcase = OnCertDone | OnRunCtxDone

text \<open>
  One step of the main goroutine: the case taken must be one of the statement it is
  blocked in, and its channel must be ready. \<open>None\<close>: that case cannot be taken now.
\<close>

fun main_step :: "mcase \<Rightarrow> state \<Rightarrow> state option" where
  "main_step c s =
     (case pc s of
        WaitingForReady \<Rightarrow>
          (case c of
             OnReady \<Rightarrow> if readyCh s then Some (ready_branch s) else None
           | OnSigTerm \<Rightarrow> if sigTerm s then Some (stopping (interrupt s)) else None
           | OnRunDone \<Rightarrow> if ctxDone RunCtx s then Some (stopping s) else None
           | _ \<Rightarrow> None)
      | Ready \<Rightarrow>
          (case c of
             OnSigTerm \<Rightarrow> if sigTerm s then Some (stopping (interrupt s)) else None
           | _ \<Rightarrow> None)
      | ShuttingDown t \<Rightarrow>
          (case c of
             OnStopped \<Rightarrow> if stoppedCh s then Some (finish s) else None
           | OnTimeout \<Rightarrow>
               if t + gracefulShutdownTimeout \<le> now s
               then Some (finish (s\<lparr>logs := logs s @ [LogTimedOut]\<rparr>)) else None
           | _ \<Rightarrow> None)
      | Stopped \<Rightarrow> None)"

text \<open>
  The two branches of the certificate watcher (lines 119 to 130): on \<open>certCtx.Done()\<close>
  it logs and calls \<open>runCancel\<close>, on \<open>runCtx.Done()\<close> it logs and calls \<open>certCancel\<close>;
  either way it returns.
\<close>

definition cert_branch :: "state \<Rightarrow> state" where
  "cert_branch s =
     s\<lparr>watcher := WatcherExited, runCancelled := True, logs := logs s @ [LogCertRotation]\<rparr>"

definition run_branch :: "state \<Rightarrow> state" where
  "run_branch s =
     s\<lparr>watcher := WatcherExited, certCancelled := True, logs := logs s @ [LogWatcherExiting]\<rparr>"

fun watcher_step :: "wcase \<Rightarrow> state \<Rightarrow> state option" where
  "watcher_step OnCertDone s =
     (if watcher s = Watching \<and> ctxDone CertCtx s then Some (cert_branch s) else None)"
| "watcher_step OnRunCtxDone s =
     (if watcher s = Watching \<and> ctxDone RunCtx s then Some (run_branch s) else None)"

text \<open>
  What can happen: a second passes, the operating system delivers an interrupt or
  termination signal (\<open>sigTerm\<close> has room for one, a further one is dropped), the
  goroutine calling \<open>m.Run\<close> starts, the Manager makes \<open>ready\<close> or \<open>stopped\<close>
  receivable, \<open>m.Run\<close> returns, the main goroutine or the watcher takes a step.
\<close>

datatype event =
    Tick
  | Signal
  | MgrStarts
  | MgrReady
  | MgrStopped
  | MgrReturns goerror
  | Main mcase
  | Watcher wcase

fun step :: "event \<Rightarrow> state \<Rightarrow> state option" where
  "step Tick s = Some (s\<lparr>now := Suc (now s)\<rparr>)"
| "step Signal s = Some (s\<lparr>sigTerm := True\<rparr>)"
| "step MgrStarts s =
     (if mgr s = MgrLaunched
      then Some (s\<lparr>mgr := MgrRunning, logs := logs s @ [LogStartedMgr]\<rparr>) else None)"
| "step MgrReady s = (if mgr s = MgrRunning then Some (s\<lparr>readyCh := True\<rparr>) else None)"
| "step MgrStopped s = (if mgr s = MgrRunning then Some (s\<lparr>stoppedCh := True\<rparr>) else None)"
| "step (MgrReturns err) s =
     (if mgr s = MgrRunning
      then Some (s\<lparr>mgr := MgrReturned,
                   logs := logs s @ [case err of Some e \<Rightarrow> LogMgrStopped e | None \<Rightarrow> LogMgrCompleted]\<rparr>)
      else None)"
| "step (Main c) s = main_step c s"
| "step (Watcher c) s = watcher_step c s"

text \<open>A run: the events happen one after the other; \<open>None\<close> if one of them cannot.\<close>

fun exec :: "event list \<Rightarrow> state \<Rightarrow> state option" where
  "exec [] s = Some s"
| "exec (e # es) s = (case step e s of None \<Rightarrow> None | Some s' \<Rightarrow> exec es s')"

text \<open>The main goroutine is blocked when none of its cases can be taken.\<close>

definition main_blocked :: "state \<Rightarrow> bool" where
  "main_blocked s =
     (main_step OnReady s = None \<and> main_step OnSigTerm s = None \<and> main_step OnRunDone s = None
      \<and> main_step OnStopped s = None \<and> main_step OnTimeout s = None)"

text \<open>The shutdown reasons a log records.\<close>

definition reasons :: "logline list \<Rightarrow> logline list" where
  "reasons ls = filter (\<lambda>l. l = LogInterrupt \<or> l = LogCertRotation) ls"

text \<open>The main goroutine has passed the first \<open>select\<close> (and the receive after it).\<close>

fun entered :: "mainpc \<Rightarrow> bool" where
  "entered WaitingForReady = False"
| "entered Ready = False"
| "entered (ShuttingDown t) = True"
| "entered Stopped = True"

text \<open>Invariants of a run, each kept by every step.\<close>

definition inv_log :: "state \<Rightarrow> bool" where
  "inv_log s =
     ((entered (pc s) \<longrightarrow> count_list (logs s) LogStoppingServices = 1
          \<and> count_list (logs s) LogInterrupt \<le> 1)
      \<and> (\<not> entered (pc s) \<longrightarrow> count_list (logs s) LogStoppingServices = 0
          \<and> count_list (logs s) LogInterrupt = 0)
      \<and> (watcher s = Watching \<longrightarrow> count_list (logs s) LogCertRotation = 0)
      \<and> count_list (logs s) LogCertRotation \<le> 1)"

definition inv_notify :: "state \<Rightarrow> bool" where
  "inv_notify s =
     (sdNotifyCalls s = count_list (logs s) LogReady
      \<and> sdNotifyCalls s \<le> 1
      \<and> (pc s = WaitingForReady \<longrightarrow> sdNotifyCalls s = 0 \<and> envNotifySocket s = None)
      \<and> (pc s = Ready \<longrightarrow> sdNotifyCalls s = 1)
      \<and> (sdNotifyCalls s = 1 \<longrightarrow> envNotifySocket s = Some (notifySocket s)))"

definition inv_scopes :: "state \<Rightarrow> bool" where
  "inv_scopes s =
     ((watcher s = WatcherExited \<longrightarrow> ctxDone RunCtx s \<and> ctxDone CertCtx s)
      \<and> (watcher s = Watching \<longrightarrow> \<not> certCancelled s)
      \<and> (entered (pc s) \<longrightarrow> ctxDone RunCtx s))"

text \<open>Invariant of a Run Session of the Manager, kept by every step.\<close>

definition mgr_inv :: "session \<Rightarrow> bool" where
  "mgr_inv s =
     (readyOut s \<le> 1
      \<and> (readyOut s = 1 \<longleftrightarrow> allSignalled s)
      \<and> (result s \<noteq> None \<longrightarrow> scopeCancelled s)
      \<and> (result s \<noteq> None \<and> readyOut s = 0 \<longrightarrow>
            (\<exists>n\<in>set (svcs s). n \<notin> set (signalled s) \<and> \<not> running s n))
      \<and> (result s = Some None \<longrightarrow> allReturned s))"

text \<open>
  A start used in the examples: valid configuration, run as root, two services, the
  notification socket set, three certificate chains (the earliest to be rotated at
  instant 1), the clock at 0.
\<close>

definition demo_startup :: startup where
  "demo_startup =
     \<lparr>configErr = None, euid = 0, noProxyErr = None, certsErr = None, kubeconfigsErr = None,
      services = [''etcd'', ''kube-apiserver''], notifyEnv = Some ''/run/systemd/notify'',
      chains = [5, 1, 9], clock = 0, sdOutcome = SdSent\<rparr>"

text \<open>A Manager with three registered services, used in the examples.\<close>

definition demo_manager :: manager where
  "demo_manager = \<lparr>registry = [''A'', ''B'', ''C''], sessionStarted = False\<rparr>"

section \<open>Runs of \<open>RunMicroshift\<close>: general facts\<close>

lemma exec_append:
  "exec (xs @ ys) s = (case exec xs s of None \<Rightarrow> None | Some s' \<Rightarrow> exec ys s')"
  by (induction xs arbitrary: s) (auto split: option.splits)

lemma exec_invariant:
  assumes "exec evs s0 = Some s" and "P s0"
    and "\<And>e a b. P a \<Longrightarrow> step e a = Some b \<Longrightarrow> P b"
  shows "P s"
  using assms(1,2)
proof (induction evs arbitrary: s0)
  case Nil
  then show ?case by simp
next
  case (Cons e es)
  then obtain a where a: "step e s0 = Some a" "exec es a = Some s"
    by (auto split: option.splits)
  from assms(3)[OF Cons.prems(2) a(1)] have "P a" .
  with Cons.IH a(2) show ?case by blast
qed

lemma main_step_cases:
  assumes "main_step c s = Some s'"
  shows "(pc s = WaitingForReady \<and> c = OnReady \<and> readyCh s \<and> s' = ready_branch s)
       \<or> (pc s = WaitingForReady \<and> c = OnSigTerm \<and> sigTerm s \<and> s' = stopping (interrupt s))
       \<or> (pc s = WaitingForReady \<and> c = OnRunDone \<and> runCancelled s \<and> s' = stopping s)
       \<or> (pc s = Ready \<and> c = OnSigTerm \<and> sigTerm s \<and> s' = stopping (interrupt s))
       \<or> (\<exists>t. pc s = ShuttingDown t \<and> c = OnStopped \<and> stoppedCh s \<and> s' = finish s)
       \<or> (\<exists>t. pc s = ShuttingDown t \<and> c = OnTimeout \<and> t + gracefulShutdownTimeout \<le> now s
            \<and> s' = finish (s\<lparr>logs := logs s @ [LogTimedOut]\<rparr>))"
  using assms by (cases "pc s"; cases c) (auto split: if_splits)

lemma step_cases:
  assumes "step e s = Some s'"
  shows "(e = Tick \<and> s' = s\<lparr>now := Suc (now s)\<rparr>)
       \<or> (e = Signal \<and> s' = s\<lparr>sigTerm := True\<rparr>)
       \<or> (e = MgrStarts \<and> s' = s\<lparr>mgr := MgrRunning, logs := logs s @ [LogStartedMgr]\<rparr>)
       \<or> (e = MgrReady \<and> s' = s\<lparr>readyCh := True\<rparr>)
       \<or> (e = MgrStopped \<and> s' = s\<lparr>stoppedCh := True\<rparr>)
       \<or> (\<exists>x. e = MgrReturns (Some x) \<and> s' = s\<lparr>mgr := MgrReturned, logs := logs s @ [LogMgrStopped x]\<rparr>)
       \<or> (e = MgrReturns None \<and> s' = s\<lparr>mgr := MgrReturned, logs := logs s @ [LogMgrCompleted]\<rparr>)
       \<or> (e = Main OnReady \<and> pc s = WaitingForReady \<and> readyCh s \<and> s' = ready_branch s)
       \<or> (e = Main OnSigTerm \<and> pc s = WaitingForReady \<and> sigTerm s \<and> s' = stopping (interrupt s))
       \<or> (e = Main OnRunDone \<and> pc s = WaitingForReady \<and> runCancelled s \<and> s' = stopping s)
       \<or> (e = Main OnSigTerm \<and> pc s = Ready \<and> sigTerm s \<and> s' = stopping (interrupt s))
       \<or> (\<exists>t. e = Main OnStopped \<and> pc s = ShuttingDown t \<and> stoppedCh s \<and> s' = finish s)
       \<or> (\<exists>t. e = Main OnTimeout \<and> pc s = ShuttingDown t \<and> t + gracefulShutdownTimeout \<le> now s
            \<and> s' = finish (s\<lparr>logs := logs s @ [LogTimedOut]\<rparr>))
       \<or> (e = Watcher OnCertDone \<and> watcher s = Watching \<and> ctxDone CertCtx s \<and> s' = cert_branch s)
       \<or> (e = Watcher OnRunCtxDone \<and> watcher s = Watching \<and> ctxDone RunCtx s \<and> s' = run_branch s)"
proof (cases e)
  case (Watcher c)
  with assms show ?thesis by (cases c) (auto split: if_splits)
next
  case (MgrReturns err)
  with assms show ?thesis by (cases err) (auto split: if_splits)
next
  case (Main c)
  with assms have "main_step c s = Some s'" by simp
  from main_step_cases[OF this] Main show ?thesis
    by (elim disjE conjE exE) simp_all
qed (use assms in \<open>auto split: if_splits\<close>)

lemma ready_branch_sel:
  "pc (ready_branch s) = Ready"
  "watcher (ready_branch s) = watcher s"
  "now (ready_branch s) = now s"
  "rotationDate (ready_branch s) = rotationDate s"
  "certCancelled (ready_branch s) = certCancelled s"
  "runCancelled (ready_branch s) = runCancelled s"
  "envNotifySocket (ready_branch s) = Some (notifySocket s)"
  "notifySocket (ready_branch s) = notifySocket s"
  "sdNotifyCalls (ready_branch s) = Suc (sdNotifyCalls s)"
  "returned (ready_branch s) = returned s"
  "count_list (logs (ready_branch s)) LogReady = Suc (count_list (logs s) LogReady)"
  "count_list (logs (ready_branch s)) LogStoppingServices = count_list (logs s) LogStoppingServices"
  "count_list (logs (ready_branch s)) LogInterrupt = count_list (logs s) LogInterrupt"
  "count_list (logs (ready_branch s)) LogCertRotation = count_list (logs s) LogCertRotation"
  by (simp_all add: ready_branch_def split: sdnotify.splits)

lemma interrupt_sel:
  "pc (interrupt s) = pc s"
  "watcher (interrupt s) = watcher s"
  "now (interrupt s) = now s"
  "rotationDate (interrupt s) = rotationDate s"
  "certCancelled (interrupt s) = certCancelled s"
  "runCancelled (interrupt s) = runCancelled s"
  "envNotifySocket (interrupt s) = envNotifySocket s"
  "notifySocket (interrupt s) = notifySocket s"
  "sdNotifyCalls (interrupt s) = sdNotifyCalls s"
  "returned (interrupt s) = returned s"
  "logs (interrupt s) = logs s @ [LogInterrupt]"
  by (simp_all add: interrupt_def)

lemma stopping_sel:
  "pc (stopping s) = ShuttingDown (now s)"
  "watcher (stopping s) = watcher s"
  "now (stopping s) = now s"
  "rotationDate (stopping s) = rotationDate s"
  "certCancelled (stopping s) = certCancelled s"
  "runCancelled (stopping s) = True"
  "envNotifySocket (stopping s) = envNotifySocket s"
  "notifySocket (stopping s) = notifySocket s"
  "sdNotifyCalls (stopping s) = sdNotifyCalls s"
  "returned (stopping s) = returned s"
  "logs (stopping s) = logs s @ [LogStoppingServices]"
  by (simp_all add: stopping_def)

lemma finish_sel:
  "pc (finish s) = Stopped"
  "watcher (finish s) = watcher s"
  "now (finish s) = now s"
  "rotationDate (finish s) = rotationDate s"
  "certCancelled (finish s) = certCancelled s"
  "runCancelled (finish s) = runCancelled s"
  "envNotifySocket (finish s) = envNotifySocket s"
  "notifySocket (finish s) = notifySocket s"
  "sdNotifyCalls (finish s) = sdNotifyCalls s"
  "returned (finish s) = Some None"
  "logs (finish s) = logs s @ [LogStopped]"
  by (simp_all add: finish_def)

lemma cert_branch_sel:
  "pc (cert_branch s) = pc s"
  "watcher (cert_branch s) = WatcherExited"
  "now (cert_branch s) = now s"
  "rotationDate (cert_branch s) = rotationDate s"
  "certCancelled (cert_branch s) = certCancelled s"
  "runCancelled (cert_branch s) = True"
  "envNotifySocket (cert_branch s) = envNotifySocket s"
  "notifySocket (cert_branch s) = notifySocket s"
  "sdNotifyCalls (cert_branch s) = sdNotifyCalls s"
  "returned (cert_branch s) = returned s"
  "logs (cert_branch s) = logs s @ [LogCertRotation]"
  by (simp_all add: cert_branch_def)

lemma run_branch_sel:
  "pc (run_branch s) = pc s"
  "watcher (run_branch s) = WatcherExited"
  "now (run_branch s) = now s"
  "rotationDate (run_branch s) = rotationDate s"
  "certCancelled (run_branch s) = True"
  "runCancelled (run_branch s) = runCancelled s"
  "envNotifySocket (run_branch s) = envNotifySocket s"
  "notifySocket (run_branch s) = notifySocket s"
  "sdNotifyCalls (run_branch s) = sdNotifyCalls s"
  "returned (run_branch s) = returned s"
  "logs (run_branch s) = logs s @ [LogWatcherExiting]"
  by (simp_all add: run_branch_def)

lemmas sel = ready_branch_sel interrupt_sel stopping_sel finish_sel cert_branch_sel run_branch_sel

lemma inv_log_step:
  assumes "inv_log s" and "step e s = Some s'"
  shows "inv_log s'"
  using step_cases[OF assms(2)] assms(1)
  by (elim disjE conjE exE) (auto simp: inv_log_def sel)

lemma inv_notify_step:
  assumes "inv_notify s" and "step e s = Some s'"
  shows "inv_notify s'"
  using step_cases[OF assms(2)] assms(1)
  by (elim disjE conjE exE) (auto simp: inv_notify_def sel)

lemma inv_scopes_step:
  assumes "inv_scopes s" and "step e s = Some s'"
  shows "inv_scopes s'"
  using step_cases[OF assms(2)] assms(1)
  by (elim disjE conjE exE) (auto simp: inv_scopes_def sel)

lemma start_initial:
  assumes "RunMicroshift_start st = Inr s0"
  shows "\<exists>d. earliestRotation (chains st) = Some d
           \<and> s0 = initial (clock st) d (case notifyEnv st of None \<Rightarrow> [] | Some v \<Rightarrow> v) (sdOutcome st)"
  using assms
  by (auto simp: RunMicroshift_start_def split: option.splits if_splits sum.splits)

lemma inv_log_initial: "inv_log (initial t d sock sd)"
  by (simp add: inv_log_def initial_def)

lemma inv_notify_initial: "inv_notify (initial t d sock sd)"
  by (simp add: inv_notify_def initial_def)

lemma inv_scopes_initial: "inv_scopes (initial t d sock sd)"
  by (simp add: inv_scopes_def initial_def)

lemma reachable_inv_log:
  assumes "RunMicroshift_start st = Inr s0" and "exec evs s0 = Some s"
  shows "inv_log s"
proof -
  from start_initial[OF assms(1)] have "inv_log s0" using inv_log_initial by auto
  with assms(2) show ?thesis by (rule exec_invariant) (rule inv_log_step)
qed

lemma reachable_inv_notify:
  assumes "RunMicroshift_start st = Inr s0" and "exec evs s0 = Some s"
  shows "inv_notify s"
proof -
  from start_initial[OF assms(1)] have "inv_notify s0" using inv_notify_initial by auto
  with assms(2) show ?thesis by (rule exec_invariant) (rule inv_notify_step)
qed

lemma reachable_inv_scopes:
  assumes "RunMicroshift_start st = Inr s0" and "exec evs s0 = Some s"
  shows "inv_scopes s"
proof -
  from start_initial[OF assms(1)] have "inv_scopes s0" using inv_scopes_initial by auto
  with assms(2) show ?thesis by (rule exec_invariant) (rule inv_scopes_step)
qed

lemma step_pc_shutting:
  assumes "pc s = ShuttingDown t" and "step e s = Some s'"
  shows "pc s' = Stopped \<or> (pc s' = ShuttingDown t \<and> now s' = now s + (if e = Tick then 1 else 0))"
  using step_cases[OF assms(2)] assms(1)
  by (elim disjE conjE exE) (auto simp: sel)

lemma step_pc_stopped:
  assumes "pc s = Stopped" and "step e s = Some s'"
  shows "pc s' = Stopped"
  using step_cases[OF assms(2)] assms(1)
  by (elim disjE conjE exE) (auto simp: sel)

lemma exec_pc_stopped:
  "pc s = Stopped \<Longrightarrow> exec evs s = Some s' \<Longrightarrow> pc s' = Stopped"
  by (erule exec_invariant[rotated]) (auto dest: step_pc_stopped)

lemma exec_pc_shutting:
  assumes "pc s = ShuttingDown t" and "exec evs s = Some s'"
  shows "pc s' = Stopped \<or> (pc s' = ShuttingDown t \<and> now s' = now s + count_list evs Tick)"
  using assms
proof (induction evs arbitrary: s)
  case Nil
  then show ?case by simp
next
  case (Cons e es)
  then obtain a where a: "step e s = Some a" "exec es a = Some s'"
    by (auto split: option.splits)
  from step_pc_shutting[OF Cons.prems(1) a(1)]
  show ?case
  proof
    assume "pc a = Stopped"
    with a(2) show ?thesis by (auto dest: exec_pc_stopped)
  next
    assume b: "pc a = ShuttingDown t \<and> now a = now s + (if e = Tick then 1 else 0)"
    with Cons.IH[OF _ a(2)] show ?thesis by auto
  qed
qed

lemma blocked_shutting:
  assumes "pc s = ShuttingDown t"
  shows "main_blocked s \<longleftrightarrow> \<not> stoppedCh s \<and> now s < t + gracefulShutdownTimeout"
  using assms by (auto simp: main_blocked_def)

lemma exec_ticks: "exec (replicate k Tick) s = Some (s\<lparr>now := now s + k\<rparr>)"
  by (induction k arbitrary: s) simp_all

lemma count_list_ticks: "count_list (replicate k Tick) Tick = k"
  by (induction k) simp_all

section \<open>The bounded wait for the services to stop\<close>

text \<open>
  Claim C3. On entering shutdown the main goroutine starts the wait at the current
  instant. The grace period is the constant \<open>gracefulShutdownTimeout\<close>, 60 seconds. If
  \<open>stopped\<close> is receivable the wait ends in Stopped with no timeout logged. The timeout
  case can be taken exactly when the grace period has elapsed, and then logs the timeout
  and ends in Stopped. The main goroutine is blocked in the wait only while \<open>stopped\<close>
  is not receivable and the grace period has not elapsed. Whatever happens during the
  wait, the main goroutine stays in it or is in Stopped, the clock advances with every
  second, a second can always pass, and once the grace period has elapsed the main
  goroutine is in Stopped or can take the timeout case: it is never blocked for more
  than the grace period.
\<close>

theorem grace_period_bounds_shutdown_wait:
  assumes "pc s = ShuttingDown t" and "exec evs s = Some s'"
  shows "gracefulShutdownTimeout = 60
     \<and> pc (stopping s0) = ShuttingDown (now s0)
     \<and> (stoppedCh s \<longrightarrow> main_step OnStopped s = Some (finish s)
           \<and> pc (finish s) = Stopped \<and> logs (finish s) = logs s @ [LogStopped])
     \<and> (main_step OnTimeout s \<noteq> None \<longleftrightarrow> t + gracefulShutdownTimeout \<le> now s)
     \<and> (t + gracefulShutdownTimeout \<le> now s \<longrightarrow>
           (\<exists>s1. main_step OnTimeout s = Some s1 \<and> pc s1 = Stopped
              \<and> logs s1 = logs s @ [LogTimedOut, LogStopped]))
     \<and> (main_blocked s \<longleftrightarrow> \<not> stoppedCh s \<and> now s < t + gracefulShutdownTimeout)
     \<and> (pc s' = Stopped \<or> pc s' = ShuttingDown t \<and> now s' = now s + count_list evs Tick)
     \<and> (t + gracefulShutdownTimeout \<le> now s + count_list evs Tick \<longrightarrow>
           pc s' = Stopped \<or> main_step OnTimeout s' \<noteq> None)
     \<and> step Tick s' \<noteq> None"
proof -
  have 1: "gracefulShutdownTimeout = 60" by (simp add: gracefulShutdownTimeout_def)
  have 2: "pc (stopping s0) = ShuttingDown (now s0)" by (simp add: sel)
  have 3: "stoppedCh s \<longrightarrow> main_step OnStopped s = Some (finish s)
           \<and> pc (finish s) = Stopped \<and> logs (finish s) = logs s @ [LogStopped]"
    using assms(1) by (simp add: sel)
  have 4: "main_step OnTimeout s \<noteq> None \<longleftrightarrow> t + gracefulShutdownTimeout \<le> now s"
    using assms(1) by simp
  have 5: "t + gracefulShutdownTimeout \<le> now s \<longrightarrow>
           (\<exists>s1. main_step OnTimeout s = Some s1 \<and> pc s1 = Stopped
              \<and> logs s1 = logs s @ [LogTimedOut, LogStopped])"
    using assms(1) by (simp add: sel)
  note 6 = blocked_shutting[OF assms(1)]
  note 7 = exec_pc_shutting[OF assms]
  have 8: "t + gracefulShutdownTimeout \<le> now s + count_list evs Tick \<longrightarrow>
           pc s' = Stopped \<or> main_step OnTimeout s' \<noteq> None"
    using 7 by auto
  have 9: "step Tick s' \<noteq> None" by simp
  from 1 2 3 4 5 6 7 8 9 show ?thesis by blast
qed

text \<open>
  Claim C3, an instance: shutdown is entered at instant 0 and the Manager never makes
  \<open>stopped\<close> receivable; the main goroutine is blocked at first and can take the
  timeout case after sixty seconds.
\<close>

theorem grace_period_bounds_shutdown_wait_witness:
  "pc (stopping (initial 0 100 [] SdUnsupported)) = ShuttingDown 0
   \<and> exec (replicate 60 Tick) (stopping (initial 0 100 [] SdUnsupported))
       = Some ((stopping (initial 0 100 [] SdUnsupported))\<lparr>now := 60\<rparr>)
   \<and> main_blocked (stopping (initial 0 100 [] SdUnsupported))
   \<and> main_step OnTimeout ((stopping (initial 0 100 [] SdUnsupported))\<lparr>now := 60\<rparr>) \<noteq> None"
proof -
  define s where "s = stopping (initial 0 100 [] SdUnsupported)"
  have h1: "pc s = ShuttingDown 0" by (simp add: s_def stopping_def initial_def)
  have n: "now s = 0" by (simp add: s_def stopping_def initial_def)
  have h2: "exec (replicate 60 Tick) s = Some (s\<lparr>now := 60\<rparr>)"
    using exec_ticks[of 60 s] n by simp
  have st: "\<not> stoppedCh s" by (simp add: s_def stopping_def initial_def)
  have p: "pc (s\<lparr>now := 60\<rparr>) \<noteq> Stopped" using h1 by simp
  note t = grace_period_bounds_shutdown_wait[OF h1 h2, of s]
  from t have a: "main_blocked s \<longleftrightarrow> \<not> stoppedCh s \<and> now s < 0 + gracefulShutdownTimeout"
    by (elim conjE)
  from t have g: "gracefulShutdownTimeout = 60" by (elim conjE)
  from t have b: "0 + gracefulShutdownTimeout \<le> now s + count_list (replicate 60 Tick) Tick \<longrightarrow>
           pc (s\<lparr>now := 60\<rparr>) = Stopped \<or> main_step OnTimeout (s\<lparr>now := 60\<rparr>) \<noteq> None"
    by (elim conjE)
  from a g n st have "main_blocked s" by simp
  moreover from b g n p have "main_step OnTimeout (s\<lparr>now := 60\<rparr>) \<noteq> None"
    by (simp only: count_list_ticks) simp
  ultimately show ?thesis using h1 h2 unfolding s_def by blast
qed

section \<open>A shutdown timeout is not fatal\<close>

text \<open>
  Claim C9. When the grace period elapses before \<open>stopped\<close> is receivable, the main
  goroutine takes the timeout case (the other case of the wait cannot be taken), logs
  the timeout and then that MicroShift stopped, and \<open>RunMicroshift\<close> returns \<open>nil\<close>,
  the value it returns after a shutdown in which the services stopped in time.
\<close>

theorem shutdown_timeout_returns_nil:
  assumes "pc s = ShuttingDown t" and "\<not> stoppedCh s" and "t + gracefulShutdownTimeout \<le> now s"
  shows "(\<exists>s'. main_step OnTimeout s = Some s'
           \<and> main_step OnStopped s = None
           \<and> pc s' = Stopped
           \<and> returned s' = Some None
           \<and> returned s' = returned (finish s)
           \<and> logs s' = logs s @ [LogTimedOut, LogStopped])
       \<and> map (render nm) [LogTimedOut, LogStopped]
           = [''Timed out waiting for services to stop'', ''MicroShift stopped'']"
  using assms by (simp add: sel)

text \<open>
  Claim C9, an instance: sixty seconds after shutdown was entered at instant 0, with
  \<open>stopped\<close> not receivable.
\<close>

theorem shutdown_timeout_returns_nil_witness:
  "pc ((stopping (initial 0 100 [] SdUnsupported))\<lparr>now := 60\<rparr>) = ShuttingDown 0
   \<and> \<not> stoppedCh ((stopping (initial 0 100 [] SdUnsupported))\<lparr>now := 60\<rparr>)
   \<and> (\<exists>s'. main_step OnTimeout ((stopping (initial 0 100 [] SdUnsupported))\<lparr>now := 60\<rparr>) = Some s'
          \<and> pc s' = Stopped \<and> returned s' = Some None
          \<and> logs s' = [LogStarting, LogStoppingServices, LogTimedOut, LogStopped])"
proof -
  define s where "s = (stopping (initial 0 100 [] SdUnsupported))\<lparr>now := 60\<rparr>"
  have h1: "pc s = ShuttingDown 0" by (simp add: s_def stopping_def initial_def)
  have h2: "\<not> stoppedCh s" by (simp add: s_def stopping_def initial_def)
  have h3: "0 + gracefulShutdownTimeout \<le> now s" by (simp add: s_def gracefulShutdownTimeout_def)
  have l: "logs s = [LogStarting, LogStoppingServices]" by (simp add: s_def stopping_def initial_def)
  from shutdown_timeout_returns_nil[OF h1 h2 h3] obtain s' where
    "main_step OnTimeout s = Some s'" "pc s' = Stopped" "returned s' = Some None"
    "logs s' = logs s @ [LogTimedOut, LogStopped]" by blast
  with l h1 h2 show ?thesis unfolding s_def by auto
qed

section \<open>Further facts about runs\<close>

lemma step_rotationDate:
  assumes "step e s = Some s'"
  shows "rotationDate s' = rotationDate s"
  using step_cases[OF assms]
  by (elim disjE conjE exE) (auto simp: sel)

lemma exec_rotationDate:
  "exec evs s = Some s' \<Longrightarrow> rotationDate s' = rotationDate s"
  by (erule exec_invariant[where P = "\<lambda>x. rotationDate x = rotationDate s"])
     (auto dest: step_rotationDate)

lemma earliestRotation_Min:
  "earliestRotation cs = Some d \<Longrightarrow> cs \<noteq> [] \<and> d = Min (set cs)"
proof (induction cs arbitrary: d)
  case Nil
  then show ?case by simp
next
  case (Cons c cs)
  show ?case
  proof (cases "earliestRotation cs")
    case None
    then have "cs = []" by (cases cs) (auto split: option.splits)
    with Cons.prems None show ?thesis by simp
  next
    case (Some d')
    with Cons.IH have "cs \<noteq> []" "d' = Min (set cs)" by auto
    with Cons.prems Some show ?thesis by (simp add: min_def Min_insert2 Min.insert)
  qed
qed

lemma step_notifySocket:
  assumes "step e s = Some s'"
  shows "notifySocket s' = notifySocket s"
  using step_cases[OF assms]
  by (elim disjE conjE exE) (auto simp: sel)

lemma exec_notifySocket:
  "exec evs s = Some s' \<Longrightarrow> notifySocket s' = notifySocket s"
  by (erule exec_invariant[where P = "\<lambda>x. notifySocket x = notifySocket s"])
     (auto dest: step_notifySocket)


lemma step_after_ready_calls:
  assumes "pc s \<noteq> WaitingForReady" and "step e s = Some s'"
  shows "pc s' \<noteq> WaitingForReady \<and> sdNotifyCalls s' = sdNotifyCalls s
         \<and> (entered (pc s) \<longrightarrow> entered (pc s'))"
  using step_cases[OF assms(2)] assms(1)
  by (elim disjE conjE exE) (auto simp: sel)

lemma exec_entered_calls:
  assumes "entered (pc s)" and "exec evs s = Some s'"
  shows "entered (pc s') \<and> sdNotifyCalls s' = sdNotifyCalls s"
proof -
  have "entered (pc s') \<and> pc s' \<noteq> WaitingForReady \<and> sdNotifyCalls s' = sdNotifyCalls s"
  proof (rule exec_invariant[OF assms(2),
        where P = "\<lambda>x. entered (pc x) \<and> pc x \<noteq> WaitingForReady \<and> sdNotifyCalls x = sdNotifyCalls s"])
    from assms(1) show "entered (pc s) \<and> pc s \<noteq> WaitingForReady \<and> sdNotifyCalls s = sdNotifyCalls s"
      by (cases "pc s") simp_all
  next
    fix e a b
    assume "entered (pc a) \<and> pc a \<noteq> WaitingForReady \<and> sdNotifyCalls a = sdNotifyCalls s"
      and "step e a = Some b"
    with step_after_ready_calls[of a e b]
    show "entered (pc b) \<and> pc b \<noteq> WaitingForReady \<and> sdNotifyCalls b = sdNotifyCalls s"
      by simp
  qed
  then show ?thesis by simp
qed

lemma demo_start:
  "RunMicroshift_start demo_startup = Inr (initial 0 1 ''/run/systemd/notify'' SdSent)"
  by (simp add: demo_startup_def RunMicroshift_start_def NewServiceManager_def register_def)

lemma reasons_length:
  "length (reasons ls) = count_list ls LogInterrupt + count_list ls LogCertRotation"
  by (induction ls) (auto simp: reasons_def)

lemma step_entered_log:
  assumes "entered (pc s)" and "step e s = Some s'"
  shows "count_list (logs s') LogInterrupt = count_list (logs s) LogInterrupt
       \<and> count_list (logs s') LogStoppingServices = count_list (logs s) LogStoppingServices"
  using step_cases[OF assms(2)] assms(1)
  by (elim disjE conjE exE) (auto simp: sel)

lemma step_runCancelled:
  assumes "runCancelled s" and "step e s = Some s'"
  shows "runCancelled s'"
  using step_cases[OF assms(2)] assms(1)
  by (elim disjE conjE exE) (auto simp: sel)

section \<open>The certificate watcher links the two contexts\<close>

lemma step_done_stable:
  assumes "step e s = Some s'"
  shows "(ctxDone RunCtx s \<longrightarrow> ctxDone RunCtx s')
       \<and> (ctxDone CertCtx s \<longrightarrow> ctxDone CertCtx s')
       \<and> (watcher s = WatcherExited \<longrightarrow> watcher s' = WatcherExited)"
  using step_cases[OF assms]
  by (elim disjE conjE exE) (auto simp: sel)

lemma watcher_step_both_done:
  assumes "watcher_step c s = Some s'"
  shows "ctxDone RunCtx s' \<and> ctxDone CertCtx s' \<and> watcher s' = WatcherExited"
  using assms by (cases c) (auto simp: sel split: if_splits)

text \<open>
  Claim C10, as amended. In every state a run can reach: whichever step the watcher
  takes, both contexts are done afterwards and the watcher has returned. If \<open>certCtx\<close>
  alone is done, the only branch the watcher can take is the one that cancels \<open>runCtx\<close>;
  if \<open>runCtx\<close> alone is done, the only branch it can take is the one that calls
  \<open>certCancel\<close>; if neither is done it waits. Once the watcher has returned both
  contexts are done, and no step makes a done context not done or a returned watcher
  wait again. Once the main goroutine has passed the first \<open>select\<close> it has called
  \<open>runCancel\<close>, so a watcher that is still waiting can take the \<open>runCtx\<close> branch.
\<close>

theorem watcher_cancels_both_scopes:
  assumes "RunMicroshift_start st = Inr s0" and "exec evs s0 = Some s"
  shows "(\<forall>c s'. watcher_step c s = Some s' \<longrightarrow>
            ctxDone RunCtx s' \<and> ctxDone CertCtx s' \<and> watcher s' = WatcherExited)
       \<and> (watcher s = Watching \<and> ctxDone CertCtx s \<and> \<not> ctxDone RunCtx s \<longrightarrow>
            watcher_step OnCertDone s = Some (cert_branch s)
            \<and> watcher_step OnRunCtxDone s = None
            \<and> runCancelled (cert_branch s))
       \<and> (watcher s = Watching \<and> ctxDone RunCtx s \<and> \<not> ctxDone CertCtx s \<longrightarrow>
            watcher_step OnRunCtxDone s = Some (run_branch s)
            \<and> watcher_step OnCertDone s = None
            \<and> certCancelled (run_branch s))
       \<and> (\<not> ctxDone CertCtx s \<and> \<not> ctxDone RunCtx s \<longrightarrow>
            watcher_step OnCertDone s = None \<and> watcher_step OnRunCtxDone s = None)
       \<and> (watcher s = WatcherExited \<longrightarrow> ctxDone RunCtx s \<and> ctxDone CertCtx s)
       \<and> (\<forall>e s'. step e s = Some s' \<longrightarrow>
            (ctxDone RunCtx s \<longrightarrow> ctxDone RunCtx s')
            \<and> (ctxDone CertCtx s \<longrightarrow> ctxDone CertCtx s')
            \<and> (watcher s = WatcherExited \<longrightarrow> watcher s' = WatcherExited))
       \<and> (entered (pc s) \<longrightarrow> ctxDone RunCtx s)
       \<and> (entered (pc s) \<and> watcher s = Watching \<longrightarrow>
            watcher_step OnRunCtxDone s = Some (run_branch s))"
proof -
  from reachable_inv_scopes[OF assms] have i: "inv_scopes s" .
  have 1: "\<forall>c s'. watcher_step c s = Some s' \<longrightarrow>
            ctxDone RunCtx s' \<and> ctxDone CertCtx s' \<and> watcher s' = WatcherExited"
    using watcher_step_both_done by blast
  have 2: "watcher s = Watching \<and> ctxDone CertCtx s \<and> \<not> ctxDone RunCtx s \<longrightarrow>
            watcher_step OnCertDone s = Some (cert_branch s)
            \<and> watcher_step OnRunCtxDone s = None
            \<and> runCancelled (cert_branch s)"
    by (simp add: sel)
  have 3: "watcher s = Watching \<and> ctxDone RunCtx s \<and> \<not> ctxDone CertCtx s \<longrightarrow>
            watcher_step OnRunCtxDone s = Some (run_branch s)
            \<and> watcher_step OnCertDone s = None
            \<and> certCancelled (run_branch s)"
    by (simp add: sel)
  have 4: "\<not> ctxDone CertCtx s \<and> \<not> ctxDone RunCtx s \<longrightarrow>
            watcher_step OnCertDone s = None \<and> watcher_step OnRunCtxDone s = None"
    by simp
  from i have 5: "watcher s = WatcherExited \<longrightarrow> ctxDone RunCtx s \<and> ctxDone CertCtx s"
    by (simp add: inv_scopes_def)
  have 6: "\<forall>e s'. step e s = Some s' \<longrightarrow>
            (ctxDone RunCtx s \<longrightarrow> ctxDone RunCtx s')
            \<and> (ctxDone CertCtx s \<longrightarrow> ctxDone CertCtx s')
            \<and> (watcher s = WatcherExited \<longrightarrow> watcher s' = WatcherExited)"
    using step_done_stable by blast
  from i have 7: "entered (pc s) \<longrightarrow> ctxDone RunCtx s" by (simp add: inv_scopes_def)
  from 7 have 8: "entered (pc s) \<and> watcher s = Watching \<longrightarrow>
      watcher_step OnRunCtxDone s = Some (run_branch s)" by simp
  show ?thesis by (rule 1 2 3 4 5 6 7 8 conjI)+
qed

text \<open>
  Claim C10, an instance: first the deadline passes before anything else, then a signal
  is handled before the deadline.
\<close>

theorem watcher_cancels_both_scopes_witness:
  "RunMicroshift_start demo_startup = Inr (initial 0 1 ''/run/systemd/notify'' SdSent)
   \<and> (\<exists>s. exec [Tick] (initial 0 1 ''/run/systemd/notify'' SdSent) = Some s
        \<and> watcher s = Watching \<and> ctxDone CertCtx s \<and> \<not> ctxDone RunCtx s
        \<and> watcher_step OnCertDone s = Some (cert_branch s)
        \<and> watcher_step OnRunCtxDone s = None
        \<and> ctxDone RunCtx (cert_branch s) \<and> ctxDone CertCtx (cert_branch s)
        \<and> watcher (cert_branch s) = WatcherExited)
   \<and> (\<exists>s. exec [Signal, Main OnSigTerm] (initial 0 1 ''/run/systemd/notify'' SdSent) = Some s
        \<and> watcher s = Watching \<and> entered (pc s) \<and> \<not> ctxDone CertCtx s \<and> ctxDone RunCtx s
        \<and> watcher_step OnRunCtxDone s = Some (run_branch s)
        \<and> watcher_step OnCertDone s = None
        \<and> ctxDone RunCtx (run_branch s) \<and> ctxDone CertCtx (run_branch s)
        \<and> watcher (run_branch s) = WatcherExited
        \<and> (\<exists>s'. step Tick s = Some s' \<and> ctxDone RunCtx s'))"
proof -
  define s0 where "s0 = initial 0 1 ''/run/systemd/notify'' SdSent"
  have h1: "RunMicroshift_start demo_startup = Inr s0" unfolding s0_def by (rule demo_start)
  obtain s where h2: "exec [Tick] s0 = Some s"
    and a: "watcher s = Watching \<and> ctxDone CertCtx s" and a': "\<not> ctxDone RunCtx s"
    by (simp add: s0_def initial_def)
  obtain u where h3: "exec [Signal, Main OnSigTerm] s0 = Some u"
    and b: "watcher u = Watching \<and> entered (pc u)" and b': "\<not> ctxDone CertCtx u"
    by (simp add: s0_def initial_def stopping_def interrupt_def)
  obtain u' where h4: "step Tick u = Some u'" by simp
  note t = watcher_cancels_both_scopes[OF h1 h2]
  note v = watcher_cancels_both_scopes[OF h1 h3]
  from t a a' have c1: "watcher_step OnCertDone s = Some (cert_branch s)
        \<and> watcher_step OnRunCtxDone s = None" by blast
  with t have c2: "ctxDone RunCtx (cert_branch s) \<and> ctxDone CertCtx (cert_branch s)
        \<and> watcher (cert_branch s) = WatcherExited" by blast
  from v b have r: "ctxDone RunCtx u" by blast
  from v b b' r have d1: "watcher_step OnRunCtxDone u = Some (run_branch u)
        \<and> watcher_step OnCertDone u = None" by blast
  with v have d2: "ctxDone RunCtx (run_branch u) \<and> ctxDone CertCtx (run_branch u)
        \<and> watcher (run_branch u) = WatcherExited" by blast
  from v h4 r have d3: "ctxDone RunCtx u'" by blast
  from h1 h2 a a' c1 c2 h3 b b' r d1 d2 h4 d3 show ?thesis unfolding s0_def by blast
qed

text \<open>
  Claim C10 as stated fails twice. First run: a signal is handled, the Manager makes
  \<open>stopped\<close> receivable and \<open>RunMicroshift\<close> returns \<open>nil\<close>, while the watcher has not
  run: it is still waiting and \<open>certCtx\<close> is not done, so the watcher and the
  certificate scope outlive the session (lines 173 to 179 do not wait for the watcher).
  Second run: \<open>runCtx\<close> is cancelled first, the deadline passes before the watcher runs,
  and the watcher takes the \<open>certCtx\<close> branch: it returns without ever calling
  \<open>certCancel\<close>.
\<close>

theorem watcher_outlives_session_counterexample:
  "RunMicroshift_start demo_startup = Inr (initial 0 1 ''/run/systemd/notify'' SdSent)
   \<and> exec [MgrStarts, Signal, Main OnSigTerm, MgrStopped, Main OnStopped]
        (initial 0 1 ''/run/systemd/notify'' SdSent) \<noteq> None
   \<and> pc (the (exec [MgrStarts, Signal, Main OnSigTerm, MgrStopped, Main OnStopped]
        (initial 0 1 ''/run/systemd/notify'' SdSent))) = Stopped
   \<and> returned (the (exec [MgrStarts, Signal, Main OnSigTerm, MgrStopped, Main OnStopped]
        (initial 0 1 ''/run/systemd/notify'' SdSent))) = Some None
   \<and> watcher (the (exec [MgrStarts, Signal, Main OnSigTerm, MgrStopped, Main OnStopped]
        (initial 0 1 ''/run/systemd/notify'' SdSent))) = Watching
   \<and> \<not> ctxDone CertCtx (the (exec [MgrStarts, Signal, Main OnSigTerm, MgrStopped, Main OnStopped]
        (initial 0 1 ''/run/systemd/notify'' SdSent)))
   \<and> exec [Signal, Main OnSigTerm, Tick, Watcher OnCertDone]
        (initial 0 1 ''/run/systemd/notify'' SdSent) \<noteq> None
   \<and> ctxDone RunCtx (the (exec [Signal, Main OnSigTerm]
        (initial 0 1 ''/run/systemd/notify'' SdSent)))
   \<and> \<not> ctxDone CertCtx (the (exec [Signal, Main OnSigTerm]
        (initial 0 1 ''/run/systemd/notify'' SdSent)))
   \<and> watcher (the (exec [Signal, Main OnSigTerm, Tick, Watcher OnCertDone]
        (initial 0 1 ''/run/systemd/notify'' SdSent))) = WatcherExited
   \<and> \<not> certCancelled (the (exec [Signal, Main OnSigTerm, Tick, Watcher OnCertDone]
        (initial 0 1 ''/run/systemd/notify'' SdSent)))"
  by (simp add: demo_start initial_def cert_branch_def stopping_def interrupt_def finish_def)

section \<open>The rotation deadline\<close>

text \<open>
  Claim C7. The rotation date is the earliest rotate-by instant of the certificate
  chains, it is fixed when \<open>RunMicroshift\<close> starts and no step changes it. It is the
  deadline of \<open>certCtx\<close>, a cancellable context derived from the background context (as
  \<open>runCtx\<close> is), which is never done itself: while the watcher is watching, \<open>certCtx\<close>
  is done exactly when the deadline has passed. When the deadline has passed, \<open>runCtx\<close>
  is already cancelled or the watcher can take the branch that logs the certificate
  rotation and cancels \<open>runCtx\<close>, whether or not a signal is pending in \<open>sigTerm\<close>.
  A main goroutine still at the first \<open>select\<close> can then take the \<open>runCtx.Done()\<close> case
  and enter shutdown.
\<close>

theorem rotation_deadline_cancels_run_scope:
  assumes "RunMicroshift_start st = Inr s0" and "exec evs s0 = Some s"
  shows "chains st \<noteq> [] \<and> rotationDate s0 = Min (set (chains st))
       \<and> rotationDate s = rotationDate s0
       \<and> parent CertCtx = Some Background \<and> parent RunCtx = Some Background
       \<and> \<not> ctxDone Background s
       \<and> (rotationDate s \<le> now s \<longrightarrow> ctxDone CertCtx s)
       \<and> (watcher s = Watching \<longrightarrow> (ctxDone CertCtx s \<longleftrightarrow> rotationDate s \<le> now s))
       \<and> (rotationDate s \<le> now s \<longrightarrow>
            ctxDone RunCtx s
            \<or> (\<forall>b. watcher_step OnCertDone (s\<lparr>sigTerm := b\<rparr>) = Some (cert_branch (s\<lparr>sigTerm := b\<rparr>))
                  \<and> ctxDone RunCtx (cert_branch (s\<lparr>sigTerm := b\<rparr>))
                  \<and> logs (cert_branch (s\<lparr>sigTerm := b\<rparr>)) = logs s @ [LogCertRotation]))
       \<and> (pc s = WaitingForReady \<longrightarrow>
            main_step OnRunDone (cert_branch s) = Some (stopping (cert_branch s))
            \<and> pc (stopping (cert_branch s)) = ShuttingDown (now s))"
proof -
  from reachable_inv_scopes[OF assms] have i: "inv_scopes s" .
  from start_initial[OF assms(1)] obtain d where
    d: "earliestRotation (chains st) = Some d"
       "s0 = initial (clock st) d (case notifyEnv st of None \<Rightarrow> [] | Some v \<Rightarrow> v) (sdOutcome st)"
    by blast
  from earliestRotation_Min[OF d(1)] d(2)
  have 1: "chains st \<noteq> [] \<and> rotationDate s0 = Min (set (chains st))"
    by (simp add: initial_def)
  note 2 = exec_rotationDate[OF assms(2)]
  have 3: "parent CertCtx = Some Background \<and> parent RunCtx = Some Background
       \<and> \<not> ctxDone Background s" by simp
  have 4: "rotationDate s \<le> now s \<longrightarrow> ctxDone CertCtx s" by simp
  from i have 5: "watcher s = Watching \<longrightarrow> (ctxDone CertCtx s \<longleftrightarrow> rotationDate s \<le> now s)"
    by (simp add: inv_scopes_def)
  have 6: "rotationDate s \<le> now s \<longrightarrow>
            ctxDone RunCtx s
            \<or> (\<forall>b. watcher_step OnCertDone (s\<lparr>sigTerm := b\<rparr>) = Some (cert_branch (s\<lparr>sigTerm := b\<rparr>))
                  \<and> ctxDone RunCtx (cert_branch (s\<lparr>sigTerm := b\<rparr>))
                  \<and> logs (cert_branch (s\<lparr>sigTerm := b\<rparr>)) = logs s @ [LogCertRotation])"
  proof (cases "watcher s")
    case Watching
    then show ?thesis by (simp add: sel)
  next
    case WatcherExited
    with i show ?thesis by (simp add: inv_scopes_def)
  qed
  have 7: "pc s = WaitingForReady \<longrightarrow>
            main_step OnRunDone (cert_branch s) = Some (stopping (cert_branch s))
            \<and> pc (stopping (cert_branch s)) = ShuttingDown (now s)"
    by (simp add: sel)
  from 1 2 3 4 5 6 7 show ?thesis by blast
qed

text \<open>
  Claim C7, an instance: the deadline of the example start passes after one second, with
  no signal.
\<close>

theorem rotation_deadline_cancels_run_scope_witness:
  "RunMicroshift_start demo_startup = Inr (initial 0 1 ''/run/systemd/notify'' SdSent)
   \<and> Min (set (chains demo_startup)) = 1
   \<and> (\<exists>s. exec [Tick] (initial 0 1 ''/run/systemd/notify'' SdSent) = Some s
        \<and> rotationDate s = 1 \<and> now s = 1 \<and> pc s = WaitingForReady \<and> \<not> sigTerm s
        \<and> \<not> ctxDone RunCtx s \<and> ctxDone CertCtx s
        \<and> watcher_step OnCertDone (s\<lparr>sigTerm := False\<rparr>) = Some (cert_branch (s\<lparr>sigTerm := False\<rparr>))
        \<and> ctxDone RunCtx (cert_branch (s\<lparr>sigTerm := False\<rparr>))
        \<and> main_step OnRunDone (cert_branch s) = Some (stopping (cert_branch s))
        \<and> pc (stopping (cert_branch s)) = ShuttingDown 1)"
proof -
  define s0 where "s0 = initial 0 1 ''/run/systemd/notify'' SdSent"
  have h1: "RunMicroshift_start demo_startup = Inr s0" unfolding s0_def by (rule demo_start)
  obtain s where h2: "exec [Tick] s0 = Some s"
    and a: "now s = 1" "pc s = WaitingForReady" "\<not> sigTerm s" "\<not> ctxDone RunCtx s"
    by (simp add: s0_def initial_def)
  have r0: "rotationDate s0 = 1" by (simp add: s0_def initial_def)
  note t = rotation_deadline_cancels_run_scope[OF h1 h2]
  from t r0 have m: "Min (set (chains demo_startup)) = 1" and r: "rotationDate s = 1" by simp_all
  from t r a have c: "ctxDone CertCtx s" by simp
  from t r a(1,4) have d: "watcher_step OnCertDone (s\<lparr>sigTerm := False\<rparr>) = Some (cert_branch (s\<lparr>sigTerm := False\<rparr>))
        \<and> ctxDone RunCtx (cert_branch (s\<lparr>sigTerm := False\<rparr>))" by simp
  from t a(1,2) have e: "main_step OnRunDone (cert_branch s) = Some (stopping (cert_branch s))
        \<and> pc (stopping (cert_branch s)) = ShuttingDown 1" by simp
  from h1 m h2 r a c d e show ?thesis unfolding s0_def by blast
qed

section \<open>The readiness announcement\<close>

text \<open>
  Claim C6, as amended. In every state a run can reach, \<open>daemon.SdNotify\<close> has been
  called at most once, as often as "MicroShift is ready" was logged, that is once
  exactly when the \<open>ready\<close> case was taken. While the main goroutine waits for readiness
  the call has not been made and \<open>NOTIFY_SOCKET\<close> is unset; in Ready the call has been
  made, with \<open>NOTIFY_SOCKET\<close> restored to the value stored at the start. The \<open>ready\<close>
  case can be taken only when \<open>ready\<close> is receivable, and then it can be taken whether
  or not a signal is pending. When the main goroutine receives the signal before
  readiness, that is takes the \<open>sigTerm\<close> case of the first \<open>select\<close>, it goes straight
  to ShuttingDown, and from there on no run ever calls \<open>daemon.SdNotify\<close> or reaches
  Ready.
\<close>

theorem readiness_announced_once_after_ready:
  assumes "RunMicroshift_start st = Inr s0" and "exec evs s0 = Some s"
  shows "sdNotifyCalls s \<le> 1
       \<and> sdNotifyCalls s = count_list (logs s) LogReady
       \<and> (sdNotifyCalls s = 1 \<longleftrightarrow> LogReady \<in> set (logs s))
       \<and> notifySocket s = (case notifyEnv st of None \<Rightarrow> [] | Some v \<Rightarrow> v)
       \<and> (pc s = WaitingForReady \<longrightarrow> sdNotifyCalls s = 0 \<and> envNotifySocket s = None)
       \<and> (pc s = Ready \<longrightarrow> sdNotifyCalls s = 1)
       \<and> (sdNotifyCalls s = 1 \<longrightarrow> envNotifySocket s = Some (notifySocket s))
       \<and> (pc s = WaitingForReady \<and> readyCh s \<longrightarrow>
             main_step OnReady s = Some (ready_branch s)
             \<and> pc (ready_branch s) = Ready \<and> sdNotifyCalls (ready_branch s) = 1)
       \<and> (pc s = WaitingForReady \<and> \<not> readyCh s \<longrightarrow> main_step OnReady s = None)
       \<and> (pc s = WaitingForReady \<and> readyCh s \<and> sigTerm s \<longrightarrow>
             main_step OnReady s \<noteq> None \<and> main_step OnSigTerm s \<noteq> None)
       \<and> (pc s = WaitingForReady \<and> sigTerm s \<longrightarrow>
             main_step OnSigTerm s = Some (stopping (interrupt s))
             \<and> pc (stopping (interrupt s)) = ShuttingDown (now s)
             \<and> (\<forall>evs' s'. exec evs' (stopping (interrupt s)) = Some s' \<longrightarrow>
                   sdNotifyCalls s' = 0 \<and> pc s' \<noteq> Ready))"
proof -
  from reachable_inv_notify[OF assms] have i: "inv_notify s" .
  from i have 1: "sdNotifyCalls s \<le> 1 \<and> sdNotifyCalls s = count_list (logs s) LogReady"
    unfolding inv_notify_def by auto
  from 1 have 9: "sdNotifyCalls s = 1 \<longleftrightarrow> LogReady \<in> set (logs s)"
    using count_list_0_iff[of "logs s" LogReady] by auto
  from start_initial[OF assms(1)]
  have "notifySocket s0 = (case notifyEnv st of None \<Rightarrow> [] | Some v \<Rightarrow> v)"
    by (auto simp: initial_def)
  moreover have "notifySocket s = notifySocket s0"
    by (rule exec_notifySocket[OF assms(2)])
  ultimately have 2: "notifySocket s = (case notifyEnv st of None \<Rightarrow> [] | Some v \<Rightarrow> v)"
    by simp
  from i have 3: "pc s = WaitingForReady \<longrightarrow> sdNotifyCalls s = 0 \<and> envNotifySocket s = None"
    and 4: "pc s = Ready \<longrightarrow> sdNotifyCalls s = 1"
    and 5: "sdNotifyCalls s = 1 \<longrightarrow> envNotifySocket s = Some (notifySocket s)"
    unfolding inv_notify_def by auto
  from 3 have 6: "pc s = WaitingForReady \<and> readyCh s \<longrightarrow>
             main_step OnReady s = Some (ready_branch s)
             \<and> pc (ready_branch s) = Ready \<and> sdNotifyCalls (ready_branch s) = 1"
    by (simp add: sel)
  have 7: "pc s = WaitingForReady \<and> \<not> readyCh s \<longrightarrow> main_step OnReady s = None" by simp
  have 10: "pc s = WaitingForReady \<and> readyCh s \<and> sigTerm s \<longrightarrow>
             main_step OnReady s \<noteq> None \<and> main_step OnSigTerm s \<noteq> None" by simp
  have 8: "pc s = WaitingForReady \<and> sigTerm s \<longrightarrow>
             main_step OnSigTerm s = Some (stopping (interrupt s))
             \<and> pc (stopping (interrupt s)) = ShuttingDown (now s)
             \<and> (\<forall>evs' s'. exec evs' (stopping (interrupt s)) = Some s' \<longrightarrow>
                   sdNotifyCalls s' = 0 \<and> pc s' \<noteq> Ready)"
  proof (intro impI conjI allI; elim conjE)
    assume w: "pc s = WaitingForReady" and "sigTerm s"
    then show "main_step OnSigTerm s = Some (stopping (interrupt s))" by simp
    show "pc (stopping (interrupt s)) = ShuttingDown (now s)" by (simp add: sel)
    fix evs' s'
    assume e: "exec evs' (stopping (interrupt s)) = Some s'"
    have "entered (pc (stopping (interrupt s)))" by (simp add: sel)
    from exec_entered_calls[OF this e] 3 w
    show "sdNotifyCalls s' = 0" by (simp add: sel)
    from exec_entered_calls[OF \<open>entered (pc (stopping (interrupt s)))\<close> e]
    show "pc s' \<noteq> Ready" by auto
  qed
  from 1 9 2 3 4 5 6 7 10 8 show ?thesis by blast
qed

text \<open>
  Claim C6, an instance: a run that reaches Ready, and a run in which the signal arrives
  first.
\<close>

theorem readiness_announced_once_after_ready_witness:
  "RunMicroshift_start demo_startup = Inr (initial 0 1 ''/run/systemd/notify'' SdSent)
   \<and> (\<exists>s. exec [MgrStarts, MgrReady, Main OnReady] (initial 0 1 ''/run/systemd/notify'' SdSent) = Some s
        \<and> pc s = Ready \<and> sdNotifyCalls s = 1
        \<and> envNotifySocket s = Some ''/run/systemd/notify'')
   \<and> (\<exists>s. exec [MgrStarts, Signal] (initial 0 1 ''/run/systemd/notify'' SdSent) = Some s
        \<and> pc s = WaitingForReady \<and> sigTerm s \<and> \<not> readyCh s
        \<and> sdNotifyCalls s = 0 \<and> envNotifySocket s = None
        \<and> main_step OnReady s = None
        \<and> main_step OnSigTerm s = Some (stopping (interrupt s))
        \<and> (\<exists>s'. exec [MgrReady, MgrStopped, Main OnStopped] (stopping (interrupt s)) = Some s'
              \<and> sdNotifyCalls s' = 0 \<and> pc s' \<noteq> Ready))"
proof -
  define s0 where "s0 = initial 0 1 ''/run/systemd/notify'' SdSent"
  have h1: "RunMicroshift_start demo_startup = Inr s0" unfolding s0_def by (rule demo_start)
  obtain s where h2: "exec [MgrStarts, MgrReady, Main OnReady] s0 = Some s" and a: "pc s = Ready"
    by (simp add: s0_def initial_def ready_branch_def)
  obtain u where h3: "exec [MgrStarts, Signal] s0 = Some u"
    and b: "pc u = WaitingForReady" "sigTerm u" "\<not> readyCh u" and b': "mgr u = MgrRunning"
    by (simp add: s0_def initial_def)
  note t = readiness_announced_once_after_ready[OF h1 h2]
  note v = readiness_announced_once_after_ready[OF h1 h3]
  from t a have c: "sdNotifyCalls s = 1" by blast
  from t c have "envNotifySocket s = Some (notifySocket s)"
    and "notifySocket s = (case notifyEnv demo_startup of None \<Rightarrow> [] | Some v \<Rightarrow> v)" by blast+
  then have d: "envNotifySocket s = Some ''/run/systemd/notify''" by (simp add: demo_startup_def)
  from v b have e: "sdNotifyCalls u = 0 \<and> envNotifySocket u = None
        \<and> main_step OnReady u = None
        \<and> main_step OnSigTerm u = Some (stopping (interrupt u))" by blast
  obtain s' where f: "exec [MgrReady, MgrStopped, Main OnStopped] (stopping (interrupt u)) = Some s'"
    using b' by (simp add: stopping_def interrupt_def)
  from v b f have g: "sdNotifyCalls s' = 0 \<and> pc s' \<noteq> Ready" by blast
  from h1 h2 a c d h3 b e f g show ?thesis unfolding s0_def by blast
qed

text \<open>
  Claim C6 as stated fails: a signal that arrives before Ready does not exclude the
  handshake. The signal arrives while the main goroutine waits for readiness; the
  Manager makes \<open>ready\<close> receivable before the main goroutine runs; its \<open>select\<close> has
  two ready cases and takes \<open>ready\<close>: the handshake is performed and Ready is reached,
  with the signal still pending.
\<close>

theorem signal_before_ready_counterexample:
  "RunMicroshift_start demo_startup = Inr (initial 0 1 ''/run/systemd/notify'' SdSent)
   \<and> exec [MgrStarts, Signal, MgrReady, Main OnReady]
        (initial 0 1 ''/run/systemd/notify'' SdSent) \<noteq> None
   \<and> pc (the (exec [MgrStarts, Signal] (initial 0 1 ''/run/systemd/notify'' SdSent)))
        = WaitingForReady
   \<and> sigTerm (the (exec [MgrStarts, Signal] (initial 0 1 ''/run/systemd/notify'' SdSent)))
   \<and> \<not> readyCh (the (exec [MgrStarts, Signal] (initial 0 1 ''/run/systemd/notify'' SdSent)))
   \<and> pc (the (exec [MgrStarts, Signal, MgrReady, Main OnReady]
        (initial 0 1 ''/run/systemd/notify'' SdSent))) = Ready
   \<and> sdNotifyCalls (the (exec [MgrStarts, Signal, MgrReady, Main OnReady]
        (initial 0 1 ''/run/systemd/notify'' SdSent))) = 1
   \<and> sigTerm (the (exec [MgrStarts, Signal, MgrReady, Main OnReady]
        (initial 0 1 ''/run/systemd/notify'' SdSent)))"
  by (simp add: demo_start initial_def ready_branch_def)

section \<open>What initiates shutdown\<close>




section \<open>Shutdown is initiated once\<close>

text \<open>
  Claim C2, as amended. In every state a run can reach, the main goroutine has logged
  "Stopping services" at most once, exactly when it has passed the first \<open>select\<close>; it
  has logged "Interrupt received" at most once and the watcher has logged "Stopping
  services for certificate rotation" at most once, so the log holds at most two reasons.
  Once the main goroutine has initiated shutdown \<open>runCtx\<close> is cancelled. No later step
  undoes the cancellation of \<open>runCtx\<close>, and after the main goroutine has initiated
  shutdown no step makes it initiate shutdown again or log another interrupt.
\<close>

theorem shutdown_initiated_at_most_once:
  assumes "RunMicroshift_start st = Inr s0" and "exec evs s0 = Some s"
  shows "count_list (logs s) LogStoppingServices \<le> 1
       \<and> (count_list (logs s) LogStoppingServices = 1 \<longleftrightarrow> entered (pc s))
       \<and> count_list (logs s) LogInterrupt \<le> 1
       \<and> count_list (logs s) LogCertRotation \<le> 1
       \<and> length (reasons (logs s)) \<le> 2
       \<and> (entered (pc s) \<longrightarrow> ctxDone RunCtx s)
       \<and> (\<forall>e s'. step e s = Some s' \<longrightarrow>
             (ctxDone RunCtx s \<longrightarrow> ctxDone RunCtx s')
             \<and> (entered (pc s) \<longrightarrow> entered (pc s')
                  \<and> count_list (logs s') LogStoppingServices = 1
                  \<and> count_list (logs s') LogInterrupt = count_list (logs s) LogInterrupt))"
proof -
  from reachable_inv_log[OF assms] have i: "inv_log s" .
  from reachable_inv_scopes[OF assms] have j: "inv_scopes s" .
  from i have 1: "count_list (logs s) LogStoppingServices \<le> 1"
    and 2: "count_list (logs s) LogStoppingServices = 1 \<longleftrightarrow> entered (pc s)"
    and 3: "count_list (logs s) LogInterrupt \<le> 1"
    and 4: "count_list (logs s) LogCertRotation \<le> 1"
    unfolding inv_log_def by (cases "entered (pc s)"; simp)+
  from 3 4 have 5: "length (reasons (logs s)) \<le> 2" by (simp add: reasons_length)
  from j have 6: "entered (pc s) \<longrightarrow> ctxDone RunCtx s" by (simp add: inv_scopes_def)
  have 7: "\<forall>e s'. step e s = Some s' \<longrightarrow>
             (ctxDone RunCtx s \<longrightarrow> ctxDone RunCtx s')
             \<and> (entered (pc s) \<longrightarrow> entered (pc s')
                  \<and> count_list (logs s') LogStoppingServices = 1
                  \<and> count_list (logs s') LogInterrupt = count_list (logs s) LogInterrupt)"
  proof (intro allI impI conjI)
    fix e s'
    assume st: "step e s = Some s'"
    { assume "ctxDone RunCtx s"
      with step_runCancelled[OF _ st] show "ctxDone RunCtx s'" by simp }
    { assume en: "entered (pc s)"
      then have "pc s \<noteq> WaitingForReady" by auto
      from step_after_ready_calls[OF this st] en show "entered (pc s')" by simp
      from step_entered_log[OF en st] 2 en
      show "count_list (logs s') LogStoppingServices = 1" by simp
      from step_entered_log[OF en st]
      show "count_list (logs s') LogInterrupt = count_list (logs s) LogInterrupt" by simp }
  qed
  show ?thesis by (rule 1 2 3 4 5 6 7 conjI)+
qed

text \<open>
  Claim C2, an instance: the deadline passes, then a signal is handled, then another
  signal arrives.
\<close>

theorem shutdown_initiated_at_most_once_witness:
  "RunMicroshift_start demo_startup = Inr (initial 0 1 ''/run/systemd/notify'' SdSent)
   \<and> (\<exists>s. exec [Tick, Watcher OnCertDone, Signal, Main OnSigTerm]
            (initial 0 1 ''/run/systemd/notify'' SdSent) = Some s
          \<and> entered (pc s)
          \<and> count_list (logs s) LogStoppingServices = 1
          \<and> length (reasons (logs s)) \<le> 2
          \<and> (\<exists>s'. step Signal s = Some s' \<and> entered (pc s') \<and> ctxDone RunCtx s'
                \<and> count_list (logs s') LogStoppingServices = 1))"
proof -
  define s0 where "s0 = initial 0 1 ''/run/systemd/notify'' SdSent"
  obtain s where h2: "exec [Tick, Watcher OnCertDone, Signal, Main OnSigTerm] s0 = Some s"
    and p: "pc s = ShuttingDown 1"
    by (simp add: s0_def initial_def cert_branch_def stopping_def interrupt_def)
  have h1: "RunMicroshift_start demo_startup = Inr s0" unfolding s0_def by (rule demo_start)
  obtain s' where h3: "step Signal s = Some s'" by simp
  from p have en: "entered (pc s)" by simp
  note t = shutdown_initiated_at_most_once[OF h1 h2]
  from t en have a: "count_list (logs s) LogStoppingServices = 1" by blast
  from t have b: "length (reasons (logs s)) \<le> 2" by blast
  from t en have c: "ctxDone RunCtx s" by blast
  from t h3 en c have d: "entered (pc s') \<and> ctxDone RunCtx s'
      \<and> count_list (logs s') LogStoppingServices = 1" by blast
  from h1 h2 en a b h3 d show ?thesis unfolding s0_def by blast
qed

text \<open>
  Claim C2 as stated fails: the log can record the reasons of two triggers, and a
  trigger after the first need not be a no-op. First run: the deadline passes, the
  watcher logs the certificate rotation and cancels \<open>runCtx\<close>; a signal arrives before
  the main goroutine runs; its \<open>select\<close> has two ready cases and takes \<open>sigTerm\<close>,
  logging the interrupt as well. Second run: the main goroutine is in Ready, blocked on
  \<open><-sigTerm\<close>; the deadline passes and the watcher logs the certificate rotation and
  cancels \<open>runCtx\<close>; the main goroutine is still in Ready; the signal that arrives
  later is what moves it to ShuttingDown, and its reason is logged too.
\<close>

theorem first_trigger_reason_counterexample:
  "RunMicroshift_start demo_startup = Inr (initial 0 1 ''/run/systemd/notify'' SdSent)
   \<and> exec [Tick, Watcher OnCertDone, Signal, Main OnSigTerm]
        (initial 0 1 ''/run/systemd/notify'' SdSent) \<noteq> None
   \<and> reasons (logs (the (exec [Tick, Watcher OnCertDone, Signal, Main OnSigTerm]
        (initial 0 1 ''/run/systemd/notify'' SdSent)))) = [LogCertRotation, LogInterrupt]
   \<and> exec [MgrStarts, MgrReady, Main OnReady, Tick, Watcher OnCertDone, Signal, Main OnSigTerm]
        (initial 0 1 ''/run/systemd/notify'' SdSent) \<noteq> None
   \<and> pc (the (exec [MgrStarts, MgrReady, Main OnReady, Tick, Watcher OnCertDone]
        (initial 0 1 ''/run/systemd/notify'' SdSent))) = Ready
   \<and> pc (the (exec [MgrStarts, MgrReady, Main OnReady, Tick, Watcher OnCertDone, Signal, Main OnSigTerm]
        (initial 0 1 ''/run/systemd/notify'' SdSent))) = ShuttingDown 1
   \<and> reasons (logs (the (exec [MgrStarts, MgrReady, Main OnReady, Tick, Watcher OnCertDone, Signal, Main OnSigTerm]
        (initial 0 1 ''/run/systemd/notify'' SdSent)))) = [LogCertRotation, LogInterrupt]"
  by (simp add: demo_start initial_def cert_branch_def stopping_def interrupt_def
        ready_branch_def reasons_def)

section \<open>The Manager: general facts\<close>

lemma allSignalled_iff: "allSignalled s \<longleftrightarrow> set (svcs s) \<subseteq> set (signalled s)"
  by (auto simp: allSignalled_def list_all_iff)

lemma allReturned_iff: "allReturned s \<longleftrightarrow> (\<forall>n\<in>set (svcs s). \<not> running s n)"
  by (auto simp: allReturned_def running_def list_all_iff)

lemma emit_ready_sel:
  "svcs (emit_ready s) = svcs s"
  "signalled (emit_ready s) = signalled s"
  "outcomes (emit_ready s) = outcomes s"
  "scopeCancelled (emit_ready s) = scopeCancelled s"
  "stopOrder (emit_ready s) = stopOrder s"
  "result (emit_ready s) = result s"
  "readyOut (emit_ready s) = (if result s = None \<and> readyOut s = 0 \<and> allSignalled s then 1 else readyOut s)"
  "running (emit_ready s) = running s"
  "allSignalled (emit_ready s) = allSignalled s"
  "allReturned (emit_ready s) = allReturned s"
  by (auto simp: emit_ready_def running_def allSignalled_def allReturned_def fun_eq_iff)

lemma finish_session_sel:
  "svcs (finish_session s) = svcs s"
  "signalled (finish_session s) = signalled s"
  "outcomes (finish_session s) = outcomes s"
  "scopeCancelled (finish_session s) = scopeCancelled s"
  "stopOrder (finish_session s) = stopOrder s"
  "readyOut (finish_session s) = readyOut s"
  "result (finish_session s) =
     (if result s = None \<and> scopeCancelled s \<and> allReturned s then Some (aggregate (outcomes s))
      else result s)"
  "running (finish_session s) = running s"
  "allSignalled (finish_session s) = allSignalled s"
  "allReturned (finish_session s) = allReturned s"
  by (auto simp: finish_session_def running_def allSignalled_def allReturned_def fun_eq_iff)

lemma startup_failure_sel:
  "svcs (startup_failure n e s) = svcs s"
  "signalled (startup_failure n e s) = signalled s"
  "outcomes (startup_failure n e s) = outcomes s"
  "scopeCancelled (startup_failure n e s) = True"
  "stopOrder (startup_failure n e s) = rev (filter (\<lambda>x. x \<noteq> n \<and> running s x) (svcs s))"
  "readyOut (startup_failure n e s) = readyOut s"
  "result (startup_failure n e s) = Some (Some e)"
  "running (startup_failure n e s) = running s"
  "allSignalled (startup_failure n e s) = allSignalled s"
  "allReturned (startup_failure n e s) = allReturned s"
  by (auto simp: startup_failure_def running_def allSignalled_def allReturned_def fun_eq_iff)

lemmas mgr_sel = emit_ready_sel finish_session_sel startup_failure_sel

lemma mgr_step_cases:
  assumes "mgr_step e s = Some s'"
  shows "(\<exists>n. e = SvcReady n \<and> running s n \<and> n \<in> set (signalled s) \<and> s' = emit_ready s)
       \<or> (\<exists>n. e = SvcReady n \<and> running s n \<and> n \<notin> set (signalled s)
              \<and> s' = emit_ready (s\<lparr>signalled := signalled s @ [n]\<rparr>))
       \<or> (\<exists>n err. e = SvcReturns n err \<and> running s n \<and> result s \<noteq> None
              \<and> s' = s\<lparr>outcomes := outcomes s @ [(n, err)]\<rparr>)
       \<or> (\<exists>n x. e = SvcReturns n (Some x) \<and> running s n \<and> result s = None \<and> n \<notin> set (signalled s)
              \<and> s' = startup_failure n x (s\<lparr>outcomes := outcomes s @ [(n, Some x)]\<rparr>))
       \<or> (\<exists>n err. e = SvcReturns n err \<and> running s n \<and> result s = None
              \<and> \<not> (err \<noteq> None \<and> n \<notin> set (signalled s))
              \<and> s' = finish_session (s\<lparr>outcomes := outcomes s @ [(n, err)]\<rparr>))
       \<or> (e = ScopeCancel \<and> s' = finish_session (s\<lparr>scopeCancelled := True\<rparr>))"
proof (cases e)
  case (SvcReady n)
  with assms show ?thesis by (auto split: if_splits)
next
  case (SvcReturns n err)
  with assms show ?thesis by (cases err) (auto split: if_splits)
next
  case ScopeCancel
  with assms show ?thesis by simp
qed

lemma mgr_exec_invariant:
  assumes "mgr_exec evs s0 = Some s" and "P s0"
    and "\<And>e a b. P a \<Longrightarrow> mgr_step e a = Some b \<Longrightarrow> P b"
  shows "P s"
  using assms(1,2)
proof (induction evs arbitrary: s0)
  case Nil
  then show ?case by simp
next
  case (Cons e es)
  then obtain a where a: "mgr_step e s0 = Some a" "mgr_exec es a = Some s"
    by (auto split: option.splits)
  from assms(3)[OF Cons.prems(2) a(1)] have "P a" .
  with Cons.IH a(2) show ?case by blast
qed

lemma mgr_inv_start: "mgr_inv (run_start m)"
  by (auto simp: mgr_inv_def run_start_def emit_ready_def allSignalled_def allReturned_def
        list_all_iff)

lemma mgr_inv_step:
  assumes "mgr_inv s" and "mgr_step e s = Some s'"
  shows "mgr_inv s'"
  using mgr_step_cases[OF assms(2)]
proof (elim disjE exE conjE)
  fix n assume "s' = emit_ready s" "running s n" "n \<in> set (signalled s)"
  with assms(1) show ?thesis
    by (auto simp: mgr_inv_def mgr_sel)
next
  fix n assume h: "s' = emit_ready (s\<lparr>signalled := signalled s @ [n]\<rparr>)" "running s n"
    "n \<notin> set (signalled s)"
  let ?t = "s\<lparr>signalled := signalled s @ [n]\<rparr>"
  have r: "running ?t = running s" by (simp add: running_def fun_eq_iff)
  have a: "allSignalled ?t \<longleftrightarrow> set (svcs s) \<subseteq> insert n (set (signalled s))"
    by (auto simp: allSignalled_iff)
  have b: "allReturned ?t = allReturned s" by (simp add: allReturned_def)
  from h(2,3) have ns: "\<not> allSignalled s" by (auto simp: allSignalled_iff running_def)
  with assms(1) have r0: "readyOut s = 0" by (auto simp: mgr_inv_def)
  show ?thesis
  proof (cases "result s = None")
    case True
    with assms(1) r0 show ?thesis
      unfolding h(1) by (auto simp: mgr_inv_def mgr_sel r b)
  next
    case False
    with assms(1) r0 obtain k where k: "k \<in> set (svcs s)" "k \<notin> set (signalled s)" "\<not> running s k"
      by (auto simp: mgr_inv_def)
    with h(2) have "k \<noteq> n" by auto
    with k have "\<not> allSignalled ?t" unfolding a by auto
    with assms(1) r0 False k \<open>k \<noteq> n\<close> show ?thesis
      unfolding h(1) by (auto simp: mgr_inv_def mgr_sel r b)
  qed
next
  fix n err assume h: "s' = s\<lparr>outcomes := outcomes s @ [(n, err)]\<rparr>" "running s n" "result s \<noteq> None"
  have r: "\<And>x. running s' x \<Longrightarrow> running s x" by (auto simp: h(1) running_def)
  have a: "allSignalled s' = allSignalled s" by (simp add: h(1) allSignalled_def)
  have b: "allReturned s \<Longrightarrow> allReturned s'" by (auto simp: h(1) allReturned_def list_all_iff)
  from assms(1) h(3) a b r show ?thesis
    unfolding mgr_inv_def by (auto simp: h(1))
next
  fix n x assume h: "s' = startup_failure n x (s\<lparr>outcomes := outcomes s @ [(n, Some x)]\<rparr>)"
    "running s n" "result s = None" "n \<notin> set (signalled s)"
  let ?t = "s\<lparr>outcomes := outcomes s @ [(n, Some x)]\<rparr>"
  have a: "allSignalled ?t = allSignalled s" by (simp add: allSignalled_def)
  from h(2,4) have ns: "\<not> allSignalled s" by (auto simp: allSignalled_iff running_def)
  with assms(1) have r0: "readyOut s = 0" by (auto simp: mgr_inv_def)
  have nr: "\<not> running ?t n" by (simp add: running_def)
  from h(2) have ni: "n \<in> set (svcs s)" by (simp add: running_def)
  from assms(1) r0 ns nr ni h(4) show ?thesis
    unfolding h(1) mgr_inv_def by (auto simp: mgr_sel a)
next
  fix n err assume h: "s' = finish_session (s\<lparr>outcomes := outcomes s @ [(n, err)]\<rparr>)"
    "running s n" "result s = None"
  let ?t = "s\<lparr>outcomes := outcomes s @ [(n, err)]\<rparr>"
  have a: "allSignalled ?t = allSignalled s" by (simp add: allSignalled_def)
  have c: "\<not> allSignalled s \<Longrightarrow> allReturned ?t \<Longrightarrow>
      \<exists>k\<in>set (svcs s). k \<notin> set (signalled s) \<and> \<not> running ?t k"
    by (auto simp: allSignalled_iff allReturned_iff)
  from assms(1) h(3) c show ?thesis
    unfolding h(1) mgr_inv_def by (auto simp: mgr_sel a)
next
  assume h: "s' = finish_session (s\<lparr>scopeCancelled := True\<rparr>)"
  let ?t = "s\<lparr>scopeCancelled := True\<rparr>"
  have a: "allSignalled ?t = allSignalled s" by (simp add: allSignalled_def)
  have b: "allReturned ?t = allReturned s" by (simp add: allReturned_def)
  have r: "running ?t = running s" by (simp add: running_def fun_eq_iff)
  have c: "\<not> allSignalled s \<Longrightarrow> allReturned s \<Longrightarrow>
      \<exists>k\<in>set (svcs s). k \<notin> set (signalled s) \<and> \<not> running s k"
    by (auto simp: allSignalled_iff allReturned_iff)
  from assms(1) c show ?thesis
    unfolding h mgr_inv_def by (auto simp: mgr_sel a b r)
qed

lemma mgr_step_signalled:
  assumes "mgr_step e s = Some s'"
  shows "svcs s' = svcs s
       \<and> set (signalled s') = set (signalled s) \<union> {n. e = SvcReady n}
       \<and> readyOut s \<le> readyOut s'
       \<and> (result s \<noteq> None \<longrightarrow> result s' = result s)
       \<and> (\<forall>n. \<not> running s n \<longrightarrow> \<not> running s' n)"
  using mgr_step_cases[OF assms]
  by (elim disjE exE conjE) (auto simp: mgr_sel running_def)

lemma mgr_exec_signalled:
  assumes "mgr_exec evs s = Some s'"
  shows "svcs s' = svcs s
       \<and> set (signalled s') = set (signalled s) \<union> {n. SvcReady n \<in> set evs}"
  using assms
proof (induction evs arbitrary: s)
  case Nil
  then show ?case by simp
next
  case (Cons e es)
  then obtain a where a: "mgr_step e s = Some a" "mgr_exec es a = Some s'"
    by (auto split: option.splits)
  from mgr_step_signalled[OF a(1)] Cons.IH[OF a(2)] show ?case by auto
qed

lemma reachable_mgr_inv:
  assumes "mgr_exec evs (run_start m) = Some s"
  shows "mgr_inv s"
  using assms mgr_inv_start by (rule mgr_exec_invariant) (rule mgr_inv_step)

lemma run_start_fields:
  "svcs (run_start m) = registry m" "signalled (run_start m) = []"
  "startOrder (run_start m) = registry m"
  by (simp_all add: run_start_def mgr_sel) (simp_all add: emit_ready_def)

lemma stuck_service_step:
  assumes "n \<in> set (svcs s) \<and> n \<notin> set (signalled s) \<and> \<not> running s n"
    and "mgr_step e s = Some s'"
  shows "n \<in> set (svcs s') \<and> n \<notin> set (signalled s') \<and> \<not> running s' n"
proof -
  from assms(2) have "e \<noteq> SvcReady n" using assms(1) by (auto split: if_splits)
  with mgr_step_signalled[OF assms(2)] assms(1) show ?thesis by auto
qed

lemma mgr_exec_result:
  assumes "mgr_exec evs s = Some s'" and "result s \<noteq> None"
  shows "result s' = result s"
proof -
  have "result s' \<noteq> None \<and> result s' = result s"
    by (rule mgr_exec_invariant[OF assms(1), where P = "\<lambda>x. result x \<noteq> None \<and> result x = result s"])
       (use assms(2) mgr_step_signalled in \<open>auto\<close>)
  then show ?thesis by simp
qed

lemma mgr_exec_append:
  "mgr_exec (xs @ ys) s = (case mgr_exec xs s of None \<Rightarrow> None | Some s' \<Rightarrow> mgr_exec ys s')"
  by (induction xs arbitrary: s) (auto split: option.splits)

lemma registerAll_distinct:
  "\<not> sessionStarted m \<Longrightarrow> distinct ns \<Longrightarrow> set ns \<inter> set (registry m) = {} \<Longrightarrow>
     registerAll ns m = Inr (m\<lparr>registry := registry m @ ns\<rparr>)"
proof (induction ns arbitrary: m)
  case Nil
  then show ?case by simp
next
  case (Cons n ns)
  let ?m = "m\<lparr>registry := registry m @ [n]\<rparr>"
  from Cons.prems have r: "register n m = (None, ?m)" by (simp add: register_def)
  from Cons.prems have "\<not> sessionStarted ?m" "distinct ns" "set ns \<inter> set (registry ?m) = {}"
    by auto
  from Cons.IH[OF this] r show ?case by simp
qed

lemma registerAll_no_duplicate:
  "distinct ns \<Longrightarrow> set ns \<inter> set (registry m) = {} \<Longrightarrow> registerAll ns m \<noteq> Inl (DuplicateName d)"
proof (induction ns arbitrary: m)
  case Nil
  then show ?case by simp
next
  case (Cons n ns)
  show ?case
  proof (cases "sessionStarted m")
    case True
    with Cons.prems show ?thesis by (simp add: register_def)
  next
    case False
    let ?m = "m\<lparr>registry := registry m @ [n]\<rparr>"
    from Cons.prems False have r: "register n m = (None, ?m)" by (simp add: register_def)
    from Cons.prems have "distinct ns" "set ns \<inter> set (registry ?m) = {}" by auto
    from Cons.IH[OF this] r show ?thesis by simp
  qed
qed

lemma registerAll_duplicate:
  "\<not> sessionStarted m \<Longrightarrow> \<not> (distinct ns \<and> set ns \<inter> set (registry m) = {}) \<Longrightarrow>
     \<exists>d. registerAll ns m = Inl (DuplicateName d)"
proof (induction ns arbitrary: m)
  case Nil
  then show ?case by simp
next
  case (Cons n ns)
  show ?case
  proof (cases "n \<in> set (registry m)")
    case True
    then show ?thesis by (simp add: register_def)
  next
    case False
    let ?m = "m\<lparr>registry := registry m @ [n]\<rparr>"
    from Cons.prems False have r: "register n m = (None, ?m)" by (simp add: register_def)
    from Cons.prems False have "\<not> sessionStarted ?m"
      "\<not> (distinct ns \<and> set ns \<inter> set (registry ?m) = {})" by auto
    from Cons.IH[OF this] r show ?thesis by simp
  qed
qed

lemma demo_run_start:
  "run_start demo_manager =
     \<lparr>svcs = [''A'', ''B'', ''C''], startOrder = [''A'', ''B'', ''C''], signalled = [], outcomes = [],
      readyOut = 0, scopeCancelled = False, stopOrder = [], stoppedOut = None, result = None\<rparr>"
  by (simp add: demo_manager_def run_start_def emit_ready_def allSignalled_def)

section \<open>Registration\<close>

text \<open>
  Claim C8. \<open>register\<close> fails with \<open>DuplicateName\<close> exactly when the name is already
  registered (and then names that service); whenever it fails the Manager, and so the
  registry, is unchanged; a new name is appended to the registry of a Manager that is
  not running. Registering a sequence of pairwise distinct names that are not yet
  registered never fails with \<open>DuplicateName\<close>; on a new Manager such a sequence
  succeeds and the registry is the sequence, while a sequence with a repeated name fails
  with \<open>DuplicateName\<close>.
\<close>

theorem register_duplicate_name:
  "(fst (register n m) = Some (DuplicateName n') \<longleftrightarrow> n \<in> set (registry m) \<and> n' = n)
   \<and> (fst (register n m) \<noteq> None \<longrightarrow> snd (register n m) = m)
   \<and> (n \<notin> set (registry m) \<and> \<not> sessionStarted m \<longrightarrow>
        register n m = (None, m\<lparr>registry := registry m @ [n]\<rparr>))
   \<and> (distinct ns \<and> set ns \<inter> set (registry m) = {} \<longrightarrow>
        (\<forall>d. registerAll ns m \<noteq> Inl (DuplicateName d)))
   \<and> (distinct ns \<longrightarrow> registerAll ns NewServiceManager = Inr \<lparr>registry = ns, sessionStarted = False\<rparr>)
   \<and> (\<not> distinct ns \<longrightarrow> (\<exists>d. registerAll ns NewServiceManager = Inl (DuplicateName d)))"
proof -
  have 1: "fst (register n m) = Some (DuplicateName n') \<longleftrightarrow> n \<in> set (registry m) \<and> n' = n"
    by (auto simp: register_def)
  have 2: "fst (register n m) \<noteq> None \<longrightarrow> snd (register n m) = m"
    by (simp add: register_def)
  have 3: "n \<notin> set (registry m) \<and> \<not> sessionStarted m \<longrightarrow>
        register n m = (None, m\<lparr>registry := registry m @ [n]\<rparr>)"
    by (simp add: register_def)
  have 4: "distinct ns \<and> set ns \<inter> set (registry m) = {} \<longrightarrow>
        (\<forall>d. registerAll ns m \<noteq> Inl (DuplicateName d))"
    using registerAll_no_duplicate by blast
  have 5: "distinct ns \<longrightarrow> registerAll ns NewServiceManager = Inr \<lparr>registry = ns, sessionStarted = False\<rparr>"
    using registerAll_distinct[of NewServiceManager ns] by (simp add: NewServiceManager_def)
  have 6: "\<not> distinct ns \<longrightarrow> (\<exists>d. registerAll ns NewServiceManager = Inl (DuplicateName d))"
    using registerAll_duplicate[of NewServiceManager ns] by (simp add: NewServiceManager_def)
  show ?thesis by (rule 1 2 3 4 5 6 conjI)+
qed

text \<open>
  Claim C8, an instance: a duplicate and a new name on a registry of two, and two
  sequences on a new Manager.
\<close>

theorem register_duplicate_name_witness:
  "fst (register ''etcd'' \<lparr>registry = [''etcd'', ''kubelet''], sessionStarted = False\<rparr>)
     = Some (DuplicateName ''etcd'')
   \<and> snd (register ''etcd'' \<lparr>registry = [''etcd'', ''kubelet''], sessionStarted = False\<rparr>)
     = \<lparr>registry = [''etcd'', ''kubelet''], sessionStarted = False\<rparr>
   \<and> register ''mdns'' \<lparr>registry = [''etcd'', ''kubelet''], sessionStarted = False\<rparr>
     = (None, \<lparr>registry = [''etcd'', ''kubelet'', ''mdns''], sessionStarted = False\<rparr>)
   \<and> registerAll [''etcd'', ''kubelet'', ''mdns''] NewServiceManager
     = Inr \<lparr>registry = [''etcd'', ''kubelet'', ''mdns''], sessionStarted = False\<rparr>
   \<and> (\<exists>d. registerAll [''etcd'', ''kubelet'', ''etcd''] NewServiceManager = Inl (DuplicateName d))"
proof -
  define m where "m = \<lparr>registry = [''etcd'', ''kubelet''], sessionStarted = False\<rparr>"
  have a: "''etcd'' \<in> set (registry m)" "''mdns'' \<notin> set (registry m)" "\<not> sessionStarted m"
    by (simp_all add: m_def)
  have b: "distinct [''etcd'', ''kubelet'', ''mdns'']" "\<not> distinct [''etcd'', ''kubelet'', ''etcd'']"
    by simp_all
  from register_duplicate_name[of "''etcd''" m "''etcd''"] a
  have 1: "fst (register ''etcd'' m) = Some (DuplicateName ''etcd'')" by blast
  with register_duplicate_name[of "''etcd''" m] have 2: "snd (register ''etcd'' m) = m" by simp
  from register_duplicate_name[of "''mdns''" m] a
  have "register ''mdns'' m = (None, m\<lparr>registry := registry m @ [''mdns'']\<rparr>)" by blast
  then have 3: "register ''mdns'' m
      = (None, \<lparr>registry = [''etcd'', ''kubelet'', ''mdns''], sessionStarted = False\<rparr>)"
    by (simp add: m_def)
  from register_duplicate_name[of _ _ _ "[''etcd'', ''kubelet'', ''mdns'']"] b(1)
  have 4: "registerAll [''etcd'', ''kubelet'', ''mdns''] NewServiceManager
     = Inr \<lparr>registry = [''etcd'', ''kubelet'', ''mdns''], sessionStarted = False\<rparr>" by blast
  from register_duplicate_name[of _ _ _ "[''etcd'', ''kubelet'', ''etcd'']"] b(2)
  have 5: "\<exists>d. registerAll [''etcd'', ''kubelet'', ''etcd''] NewServiceManager = Inl (DuplicateName d)"
    by blast
  from 1 2 3 4 5 show ?thesis unfolding m_def by blast
qed

section \<open>Aggregate readiness\<close>

text \<open>
  Claim C1. In every state a Run Session can reach, \<open>readyOut\<close> has been written
  (once, never more) if and only if every registered service has signalled its
  readiness at least once during the session. If some registered service has not
  signalled, in particular if fewer services have signalled than are registered,
  \<open>readyOut\<close> has not been written. The number of writes never decreases. The services
  are started in registration order.
\<close>

theorem aggregate_readiness_iff_all_signalled:
  assumes "mgr_exec evs (run_start m) = Some s"
  shows "(readyOut s = 1 \<longleftrightarrow> (\<forall>n\<in>set (registry m). SvcReady n \<in> set evs))
       \<and> readyOut s \<le> 1
       \<and> ((\<exists>n\<in>set (registry m). SvcReady n \<notin> set evs) \<longrightarrow> readyOut s = 0)
       \<and> (card {n \<in> set (registry m). SvcReady n \<in> set evs} < card (set (registry m))
            \<longrightarrow> readyOut s = 0)
       \<and> (\<forall>e s'. mgr_step e s = Some s' \<longrightarrow> readyOut s \<le> readyOut s')
       \<and> startOrder (run_start m) = registry m"
proof -
  from reachable_mgr_inv[OF assms] have i: "mgr_inv s" .
  from mgr_exec_signalled[OF assms]
  have f: "svcs s = registry m" "set (signalled s) = {n. SvcReady n \<in> set evs}"
    by (simp_all add: run_start_fields)
  from i f have 1: "readyOut s = 1 \<longleftrightarrow> (\<forall>n\<in>set (registry m). SvcReady n \<in> set evs)"
    by (auto simp: mgr_inv_def allSignalled_iff)
  from i have 2: "readyOut s \<le> 1" by (simp add: mgr_inv_def)
  from 1 2 have 3: "(\<exists>n\<in>set (registry m). SvcReady n \<notin> set evs) \<longrightarrow> readyOut s = 0"
    by auto
  have 4: "card {n \<in> set (registry m). SvcReady n \<in> set evs} < card (set (registry m))
            \<longrightarrow> readyOut s = 0"
  proof
    assume c: "card {n \<in> set (registry m). SvcReady n \<in> set evs} < card (set (registry m))"
    have "\<exists>n\<in>set (registry m). SvcReady n \<notin> set evs"
    proof (rule ccontr)
      assume "\<not> (\<exists>n\<in>set (registry m). SvcReady n \<notin> set evs)"
      then have "{n \<in> set (registry m). SvcReady n \<in> set evs} = set (registry m)" by auto
      with c show False by simp
    qed
    with 3 show "readyOut s = 0" by blast
  qed
  have 5: "\<forall>e s'. mgr_step e s = Some s' \<longrightarrow> readyOut s \<le> readyOut s'"
    using mgr_step_signalled by blast
  have 6: "startOrder (run_start m) = registry m" by (simp add: run_start_fields)
  show ?thesis by (rule 1 2 3 4 5 6 conjI)+
qed

text \<open>
  Claim C1, an instance: three services that all signal, and the same session before the
  third has signalled.
\<close>

theorem aggregate_readiness_iff_all_signalled_witness:
  "(\<exists>s. mgr_exec [SvcReady ''A'', SvcReady ''B'', SvcReady ''A'', SvcReady ''C''] (run_start demo_manager) = Some s
        \<and> readyOut s = 1)
   \<and> (\<exists>s. mgr_exec [SvcReady ''A'', SvcReady ''B'', SvcReady ''A''] (run_start demo_manager) = Some s
        \<and> readyOut s = 0
        \<and> (\<exists>s'. mgr_step (SvcReady ''C'') s = Some s' \<and> readyOut s \<le> readyOut s'))"
proof -
  obtain s where h1: "mgr_exec [SvcReady ''A'', SvcReady ''B'', SvcReady ''A'', SvcReady ''C'']
      (run_start demo_manager) = Some s"
    by (simp add: demo_run_start running_def emit_ready_def allSignalled_def)
  obtain u where h2: "mgr_exec [SvcReady ''A'', SvcReady ''B'', SvcReady ''A'']
      (run_start demo_manager) = Some u" and ru: "running u ''C''"
    by (simp add: demo_run_start running_def emit_ready_def allSignalled_def)
  have r: "registry demo_manager = [''A'', ''B'', ''C'']" by (simp add: demo_manager_def)
  from aggregate_readiness_iff_all_signalled[OF h1] r have 1: "readyOut s = 1" by simp
  from aggregate_readiness_iff_all_signalled[OF h2] r have 2: "readyOut u = 0" by simp
  obtain u' where h3: "mgr_step (SvcReady ''C'') u = Some u'" using ru by simp
  with aggregate_readiness_iff_all_signalled[OF h2] have 3: "readyOut u \<le> readyOut u'" by blast
  from h1 1 h2 2 h3 3 show ?thesis by blast
qed

section \<open>A startup failure\<close>

text \<open>
  Claim C4. When, in a state a Run Session can reach, the \<open>run\<close> of a registered service
  returns an error and that service has not signalled readiness, then the Manager-level
  \<open>run\<close> has returned a non-nil error (that error, if it had not returned before, having
  stopped the other services that were still running in reverse registration order), the
  shared scope is cancelled, \<open>readyOut\<close> had not been written and is not written
  in any state reached afterwards, and the returned error stays as it is.
\<close>

theorem startup_failure_never_ready:
  assumes "mgr_exec evs (run_start m) = Some s"
    and "mgr_step (SvcReturns n (Some e)) s = Some s'"
    and "SvcReady n \<notin> set evs"
    and "mgr_exec evs' s' = Some s''"
  shows "(\<exists>e'. result s' = Some (Some e'))
       \<and> (result s = None \<longrightarrow> result s' = Some (Some e)
            \<and> stopOrder s' = rev (filter (\<lambda>x. x \<noteq> n \<and> running s x) (registry m)))
       \<and> scopeCancelled s'
       \<and> readyOut s = 0 \<and> readyOut s' = 0 \<and> readyOut s'' = 0
       \<and> result s'' = result s'"
proof -
  from reachable_mgr_inv[OF assms(1)] have i: "mgr_inv s" .
  from mgr_inv_step[OF i assms(2)] have i': "mgr_inv s'" .
  have "mgr_exec (evs @ [SvcReturns n (Some e)] @ evs') (run_start m) = Some s''"
    using assms(1,2,4) by (simp add: mgr_exec_append)
  from reachable_mgr_inv[OF this] have i'': "mgr_inv s''" .
  from mgr_exec_signalled[OF assms(1)] have sv: "svcs s = registry m"
    and sg: "n \<notin> set (signalled s)"
    using assms(3) by (simp_all add: run_start_fields)
  from assms(2) have rn: "running s n" by (auto split: if_splits)
  then have ni: "n \<in> set (svcs s)" by (simp add: running_def)
  with sg have "\<not> allSignalled s" by (auto simp: allSignalled_iff)
  with i have r0: "readyOut s = 0" by (auto simp: mgr_inv_def)
  from rn i have rs: "result s \<noteq> Some None"
    by (auto simp: mgr_inv_def allReturned_iff running_def)
  have run': "running (s\<lparr>outcomes := outcomes s @ [(n, Some e)]\<rparr>) x \<longleftrightarrow> x \<noteq> n \<and> running s x" for x
    by (auto simp: running_def)
  from assms(2) sg rn rs have 1: "\<exists>e'. result s' = Some (Some e')"
    by (cases "result s") (auto simp: mgr_sel)
  from assms(2) sg rn sv have 2: "result s = None \<longrightarrow> result s' = Some (Some e)
            \<and> stopOrder s' = rev (filter (\<lambda>x. x \<noteq> n \<and> running s x) (registry m))"
    by (auto simp: mgr_sel run' cong: filter_cong)
  from 1 i' have 3: "scopeCancelled s'" by (auto simp: mgr_inv_def)
  have st: "n \<in> set (svcs s') \<and> n \<notin> set (signalled s') \<and> \<not> running s' n"
    using mgr_step_signalled[OF assms(2)] ni assms(2) sg rn
    by (cases "result s") (auto simp: mgr_sel running_def)
  have st'': "n \<in> set (svcs s'') \<and> n \<notin> set (signalled s'') \<and> \<not> running s'' n"
    by (rule mgr_exec_invariant[OF assms(4),
          where P = "\<lambda>x. n \<in> set (svcs x) \<and> n \<notin> set (signalled x) \<and> \<not> running x n"])
       (rule st, rule stuck_service_step)
  from st i' have 4: "readyOut s' = 0" by (auto simp: mgr_inv_def allSignalled_iff)
  from st'' i'' have 5: "readyOut s'' = 0" by (auto simp: mgr_inv_def allSignalled_iff)
  from 1 have "result s' \<noteq> None" by auto
  from mgr_exec_result[OF assms(4) this] have 6: "result s'' = result s'" .
  show ?thesis by (rule 1 2 3 r0 4 5 6 conjI)+
qed

text \<open>
  Claim C4, an instance: service C fails before signalling while A and B are running.
\<close>

theorem startup_failure_never_ready_witness:
  "\<exists>s s' s''. mgr_exec [SvcReady ''A''] (run_start demo_manager) = Some s
      \<and> mgr_step (SvcReturns ''C'' (Some ''bind failed'')) s = Some s'
      \<and> SvcReady ''C'' \<notin> set [SvcReady ''A'']
      \<and> mgr_exec [SvcReady ''B'', SvcReturns ''B'' None, SvcReturns ''A'' None] s' = Some s''
      \<and> result s' = Some (Some ''bind failed'')
      \<and> stopOrder s' = [''B'', ''A'']
      \<and> scopeCancelled s'
      \<and> readyOut s' = 0 \<and> readyOut s'' = 0
      \<and> result s'' = Some (Some ''bind failed'')"
proof -
  define s where "s =
    \<lparr>svcs = [''A'', ''B'', ''C''], startOrder = [''A'', ''B'', ''C''],
     signalled = [''A''], outcomes = [], readyOut = 0,
     scopeCancelled = False, stopOrder = [], stoppedOut = None,
     result = (None :: goerror option)\<rparr>"
  define s' where "s' =
    \<lparr>svcs = [''A'', ''B'', ''C''], startOrder = [''A'', ''B'', ''C''],
     signalled = [''A''], outcomes = [(''C'', Some ''bind failed'')],
     readyOut = 0, scopeCancelled = True, stopOrder = [''B'', ''A''],
     stoppedOut = None, result = Some (Some ''bind failed'')\<rparr>"
  define s'' where "s'' =
    \<lparr>svcs = [''A'', ''B'', ''C''], startOrder = [''A'', ''B'', ''C''],
     signalled = [''A'', ''B''],
     outcomes = [(''C'', Some ''bind failed''), (''B'', None), (''A'', None)],
     readyOut = 0, scopeCancelled = True, stopOrder = [''B'', ''A''],
     stoppedOut = None, result = Some (Some ''bind failed'')\<rparr>"
  have h1: "mgr_exec [SvcReady ''A''] (run_start demo_manager) = Some s"
    by (simp add: s_def demo_run_start running_def emit_ready_def allSignalled_def)
  have h2: "mgr_step (SvcReturns ''C'' (Some ''bind failed'')) s = Some s'"
    by (simp add: s_def s'_def running_def startup_failure_def)
  have h3: "SvcReady ''C'' \<notin> set [SvcReady ''A'']" by simp
  have h4: "mgr_exec [SvcReady ''B'', SvcReturns ''B'' None, SvcReturns ''A'' None] s' = Some s''"
    by (simp add: s'_def s''_def running_def emit_ready_def)
  note t = startup_failure_never_ready[OF h1 h2 h3 h4]
  have r: "result s = None" "registry demo_manager = [''A'', ''B'', ''C'']"
    "running s ''A''" "running s ''B''"
    by (simp_all add: s_def demo_manager_def running_def)
  from t r(1) have 1: "result s' = Some (Some ''bind failed'')" by blast
  from t r(1) have "stopOrder s' = rev (filter (\<lambda>x. x \<noteq> ''C'' \<and> running s x) (registry demo_manager))"
    by blast
  with r have 2: "stopOrder s' = [''B'', ''A'']" by simp
  from t have 3: "scopeCancelled s'" "readyOut s' = 0" "readyOut s'' = 0" "result s'' = result s'"
    by blast+
  from h1 h2 h3 h4 1 2 3 show ?thesis by auto
qed

end
